theory Spec2Isabelle
  imports Main "HOL-Library.AList"
begin

section \<open>JavaScript values\<close>

text \<open>
  The values a container holds. A primitive is its value; an object is a reference
  (the number) together with its own enumerable properties in insertion order. The
  library never mutates an object in place: it builds a new one with a spread, so the
  properties travel with the reference. Numbers are integers, plus \<open>NaN\<close>, the one
  number that is not strictly equal to itself.
\<close>

datatype val =
    Undefined
  | Null
  | Bool bool
  | Num int
  | NaN
  | Str string
  | Obj nat "(string \<times> val) list"

text \<open>The operator \<^verbatim>\<open>===\<close>: by value on primitives, by reference on objects.\<close>

fun strict_eq :: "val \<Rightarrow> val \<Rightarrow> bool" where
  "strict_eq NaN b = False"
| "strict_eq a NaN = False"
| "strict_eq (Obj r fs) (Obj r' fs') = (r = r')"
| "strict_eq a b = (a = b)"

text \<open>
  The argument of \<^verbatim>\<open>set\<close>, of type \<^verbatim>\<open>T | ((prev: T) => T)\<close>. The source tells the two
  apart with \<^verbatim>\<open>typeof valueOrUpdater === 'function'\<close>; no \<open>val\<close> is a function.
\<close>

datatype valueOrUpdater = Value val | Updater "val \<Rightarrow> val"

fun resolve :: "valueOrUpdater \<Rightarrow> val \<Rightarrow> val" where
  "resolve (Updater f) cur = f cur"
| "resolve (Value v) cur = v"

text \<open>Decimal digits of a number, for property names and for \<^verbatim>\<open>String(n)\<close>.\<close>

function string_of_nat :: "nat \<Rightarrow> string" where
  "string_of_nat n =
     (if n < 10 then [char_of (48 + n)]
      else string_of_nat (n div 10) @ [char_of (48 + n mod 10)])"
  by pat_completeness auto
termination
  by (relation "measure id") auto

text \<open>
  \<^verbatim>\<open>String(val)\<close>, as the URL enhancers write a property to the address bar. An integer
  is printed in decimal whatever its size (JavaScript turns to exponent notation from
  \<open>10\<^sup>2\<^sup>1\<close> on).
\<close>

fun js_String :: "val \<Rightarrow> string" where
  "js_String Undefined = ''undefined''"
| "js_String Null = ''null''"
| "js_String (Bool b) = (if b then ''true'' else ''false'')"
| "js_String (Num i) = (if i < 0 then CHR ''-'' # string_of_nat (nat (- i)) else string_of_nat (nat i))"
| "js_String NaN = ''NaN''"
| "js_String (Str s) = s"
| "js_String (Obj r fs) = ''[object Object]''"

text \<open>
  The own enumerable properties an object spread \<^verbatim>\<open>{...v}\<close> copies: the properties of
  an object, the indexed characters of a string, nothing of any other primitive.
\<close>

fun indexed :: "nat \<Rightarrow> string \<Rightarrow> (string \<times> val) list" where
  "indexed i [] = []"
| "indexed i (c # cs) = (string_of_nat i, Str [c]) # indexed (Suc i) cs"

fun own_props :: "val \<Rightarrow> (string \<times> val) list" where
  "own_props (Obj r fs) = fs"
| "own_props (Str s) = indexed 0 s"
| "own_props v = []"

text \<open>
  Assigning properties one after the other, \<^verbatim>\<open>o[k] = v\<close>: a new key goes last, a key
  already there keeps its place and takes the new value. Every key is treated alike:
  properties are listed in the order of their first assignment (JavaScript lists
  integer-like keys first, in ascending order), and \<^verbatim>\<open>__proto__\<close> is a key like any other
  (in JavaScript assigning it sets no own property). Only the order of the fields, and
  the presence of that one key, can differ; the value under every other key agrees.
\<close>

fun assign_all :: "(string \<times> val) list \<Rightarrow> (string \<times> val) list \<Rightarrow> (string \<times> val) list" where
  "assign_all fs [] = fs"
| "assign_all fs ((k, v) # kvs) = assign_all (AList.update k v fs) kvs"

text \<open>The properties of \<^verbatim>\<open>{...a, ...b}\<close>.\<close>

definition spread_props :: "val \<Rightarrow> val \<Rightarrow> (string \<times> val) list" where
  "spread_props a b = assign_all (assign_all [] (own_props a)) (own_props b)"

section \<open>Failures\<close>

text \<open>
  A validation issue of a Standard Schema failure: a message and an optional path.
\<close>

record issue =
  message :: string
  path :: "string list option"

text \<open>
  What a call can throw: the error \<^verbatim>\<open>withValidation\<close> builds, with the schema's issues
  attached, or an error of the host or of a collaborator (a \<^verbatim>\<open>SyntaxError\<close> of
  \<^verbatim>\<open>JSON.parse\<close>, a \<^verbatim>\<open>QuotaExceededError\<close> of \<^verbatim>\<open>localStorage.setItem\<close>, an error of a codec).
\<close>

datatype exn = ValidationFailed "issue list" | HostError string

datatype 'a outcome = Return 'a | Throw exn

text \<open>The result of \<^verbatim>\<open>schema['~standard'].validate(next)\<close>: the source asks \<^verbatim>\<open>'issues' in result\<close>.\<close>

datatype vresult = Issues "issue list" | Valid val

text \<open>The codec of \<^verbatim>\<open>@kvkit/codecs\<close>, a collaborator outside the repository.\<close>

record codec =
  encode :: "val \<Rightarrow> val outcome"
  decode :: "val \<Rightarrow> val outcome"

section \<open>Closures and the world they share\<close>

text \<open>
  A callback is a closure, compared by reference when it is added to or deleted from a
  \<^verbatim>\<open>Set\<close>. \<open>User n\<close> and \<open>Throwing n\<close> are closures of the caller's: the first observes
  and returns normally, the second throws when it is called; what either is called
  with is recorded. A closure of the caller's that calls back into a container (\<^verbatim>\<open>set\<close>,
  \<^verbatim>\<open>subscribe\<close>, an unsubscribe function) while it is being called is not among them.
  \<open>Internal n\<close> is the \<open>n\<close>-th closure an enhancer made; its body is looked up in the
  world.
\<close>

datatype callback = User nat | Throwing nat | Internal nat

text \<open>
  The object an enhancer returns, by the function that built it: the cell of
  \<^verbatim>\<open>state\<close>; \<^verbatim>\<open>{...base, subscribe}\<close> of \<^verbatim>\<open>withUrlParams\<close> and \<^verbatim>\<open>withHashParams\<close>, with the
  event handler the override closes over; \<^verbatim>\<open>{...base, set}\<close> of \<^verbatim>\<open>withValidation\<close>, with
  its schema, and of \<^verbatim>\<open>withDebounce\<close>, with its \<^verbatim>\<open>timeout\<close> variable and its delay.
\<close>

datatype container =
    Cell nat
  | UrlParams nat container
  | HashParams nat container
  | Validation "val \<Rightarrow> vresult" container
  | Debounce nat nat container

text \<open>The bodies of the closures the enhancers subscribe to their base.\<close>

datatype closure =
    EffectListener nat
  | UrlWriter codec
  | HashWriter codec
  | StorageWriter string codec

datatype event = popstate | hashchange

datatype handler = HandlePopState codec container | HandleHashChange codec container

record cell =
  current :: val
  listeners :: "callback list"

type_synonym timer = "nat \<times> nat \<times> container \<times> valueOrUpdater"

text \<open>
  Every variable a closure of the library captures, and the host around it.
  \<^item> \<open>cells c\<close> holds \<^verbatim>\<open>current\<close> and \<^verbatim>\<open>listeners\<close> of the \<open>c\<close>-th call of \<^verbatim>\<open>state\<close>;
    \<open>closures n\<close> the body of the \<open>n\<close>-th closure an enhancer subscribed; \<open>previous n\<close>
    the variable \<^verbatim>\<open>previous\<close> that closure captures in \<^verbatim>\<open>withEffect\<close>; \<open>timeout d\<close> the
    variable \<^verbatim>\<open>timeout\<close> of the \<open>d\<close>-th call of a \<^verbatim>\<open>withDebounce\<close> enhancer; \<open>handlers h\<close> the
    body of an event handler. \<open>fresh\<close> numbers whatever is created next.
  \<^item> \<open>window_defined\<close> is \<^verbatim>\<open>typeof window !== 'undefined'\<close>. \<open>location_search\<close> and
    \<open>location_hash\<close> are the query and the hash as the key/value pairs that
    \<^verbatim>\<open>URLSearchParams\<close> reads from them and writes to them. \<open>localStorage\<close> maps a key to
    its record; \<^verbatim>\<open>setItem\<close> throws where \<open>quota_exceeded\<close> holds. \<^verbatim>\<open>JSON.parse\<close> and
    \<^verbatim>\<open>JSON.stringify\<close> are the host's, and may throw.
  \<^item> \<open>now\<close> is the clock in milliseconds and \<open>timers\<close> the pending timers, each with
    its identifier, the time it is due and the arguments of the \<^verbatim>\<open>base.set\<close> it will call.
  \<^item> \<open>trace\<close> records every call of a callback with its argument, and \<open>effects\<close> every
    call of an effect function with its two arguments, in order.
\<close>

record world =
  window_defined :: bool
  fresh :: nat
  cells :: "nat \<Rightarrow> cell"
  closures :: "nat \<Rightarrow> closure"
  previous :: "nat \<Rightarrow> val"
  timeout :: "nat \<Rightarrow> nat option"
  handlers :: "nat \<Rightarrow> handler"
  window_listeners :: "(event \<times> nat) list"
  location_search :: "(string \<times> string) list"
  location_hash :: "(string \<times> string) list"
  localStorage :: "string \<Rightarrow> string option"
  quota_exceeded :: "string \<Rightarrow> string \<Rightarrow> bool"
  JSON_parse :: "string \<Rightarrow> val outcome"
  JSON_stringify :: "val \<Rightarrow> string outcome"
  now :: nat
  timers :: "timer list"
  trace :: "(callback \<times> val) list"
  effects :: "(nat \<times> val \<times> val) list"

definition alloc :: "world \<Rightarrow> nat \<times> world" where
  "alloc w = (fresh w, w\<lparr>fresh := Suc (fresh w)\<rparr>)"

text \<open>An object literal: a new reference.\<close>

definition new_object :: "(string \<times> val) list \<Rightarrow> world \<Rightarrow> val \<times> world" where
  "new_object fs w = (let (r, w') = alloc w in (Obj r fs, w'))"

definition new_closure :: "closure \<Rightarrow> world \<Rightarrow> nat \<times> world" where
  "new_closure body w = (let (n, w') = alloc w in (n, w'\<lparr>closures := (closures w')(n := body)\<rparr>))"

definition new_handler :: "handler \<Rightarrow> world \<Rightarrow> nat \<times> world" where
  "new_handler body w = (let (h, w') = alloc w in (h, w'\<lparr>handlers := (handlers w')(h := body)\<rparr>))"

section \<open>The host: window, storage, timers\<close>

definition addEventListener :: "event \<Rightarrow> nat \<Rightarrow> world \<Rightarrow> world" where
  "addEventListener ev h w =
     (if (ev, h) \<in> set (window_listeners w) then w
      else w\<lparr>window_listeners := window_listeners w @ [(ev, h)]\<rparr>)"

definition removeEventListener :: "event \<Rightarrow> nat \<Rightarrow> world \<Rightarrow> world" where
  "removeEventListener ev h w = w\<lparr>window_listeners := removeAll (ev, h) (window_listeners w)\<rparr>"

definition setItem :: "string \<Rightarrow> string \<Rightarrow> world \<Rightarrow> unit outcome \<times> world" where
  "setItem key s w =
     (if quota_exceeded w key s then (Throw (HostError ''QuotaExceededError''), w)
      else (Return (), w\<lparr>localStorage := (localStorage w)(key \<mapsto> s)\<rparr>))"

definition setTimeout :: "container \<times> valueOrUpdater \<Rightarrow> nat \<Rightarrow> world \<Rightarrow> nat \<times> world" where
  "setTimeout f ms w =
     (let (t, w') = alloc w in (t, w'\<lparr>timers := timers w' @ [(t, now w' + ms, f)]\<rparr>))"

fun clearTimeout :: "nat option \<Rightarrow> world \<Rightarrow> world" where
  "clearTimeout None w = w"
| "clearTimeout (Some t) w = w\<lparr>timers := filter (\<lambda>tm. fst tm \<noteq> t) (timers w)\<rparr>"

text \<open>\<^verbatim>\<open>try { ... } catch { }\<close>: whatever was thrown is dropped; what was done stays done.\<close>

fun try_catch :: "unit outcome \<times> world \<Rightarrow> unit outcome \<times> world" where
  "try_catch (Throw x, w) = (Return (), w)"
| "try_catch (Return u, w) = (Return u, w)"

text \<open>
  The query a writer leaves in the address bar: \<^verbatim>\<open>newParams.set(key, String(val))\<close> for
  every entry of the encoded value that is neither \<^verbatim>\<open>undefined\<close> nor \<^verbatim>\<open>null\<close>.
\<close>

fun to_params :: "(string \<times> string) list \<Rightarrow> (string \<times> val) list \<Rightarrow> (string \<times> string) list" where
  "to_params ps [] = ps"
| "to_params ps ((k, v) # kvs) =
     (if v \<noteq> Undefined \<and> v \<noteq> Null then to_params (AList.update k (js_String v) ps) kvs
      else to_params ps kvs)"

section \<open>The container of \<^verbatim>\<open>state\<close> and the overrides of the enhancers\<close>

text \<open>\<^verbatim>\<open>get\<close>: no enhancer overrides it.\<close>

fun get :: "container \<Rightarrow> world \<Rightarrow> val" where
  "get (Cell c) w = current (cells w c)"
| "get (UrlParams h base) w = get base w"
| "get (HashParams h base) w = get base w"
| "get (Validation schema base) w = get base w"
| "get (Debounce d ms base) w = get base w"

text \<open>The listener of \<^verbatim>\<open>withStorage\<close>, inside its \<^verbatim>\<open>try\<close>.\<close>

definition storage_write :: "string \<Rightarrow> codec \<Rightarrow> val \<Rightarrow> world \<Rightarrow> unit outcome \<times> world" where
  "storage_write key cd v w =
     (case encode cd v of
        Throw x \<Rightarrow> (Throw x, w)
      | Return encoded \<Rightarrow>
          (case JSON_stringify w encoded of
             Throw x \<Rightarrow> (Throw x, w)
           | Return s \<Rightarrow> setItem key s w))"

text \<open>Calling the closure \<open>n\<close> with a value.\<close>

fun run_closure :: "closure \<Rightarrow> nat \<Rightarrow> val \<Rightarrow> world \<Rightarrow> unit outcome \<times> world" where
  "run_closure (EffectListener effect) n v w =
     (Return (), w\<lparr>effects := effects w @ [(effect, v, previous w n)],
                   previous := (previous w)(n := v)\<rparr>)"
| "run_closure (UrlWriter cd) n v w =
     (case encode cd v of
        Throw x \<Rightarrow> (Throw x, w)
      | Return encoded \<Rightarrow> (Return (), w\<lparr>location_search := to_params [] (own_props encoded)\<rparr>))"
| "run_closure (HashWriter cd) n v w =
     (case encode cd v of
        Throw x \<Rightarrow> (Throw x, w)
      | Return encoded \<Rightarrow> (Return (), w\<lparr>location_hash := to_params [] (own_props encoded)\<rparr>))"
| "run_closure (StorageWriter key cd) n v w = try_catch (storage_write key cd v w)"

definition invoke :: "callback \<Rightarrow> val \<Rightarrow> world \<Rightarrow> unit outcome \<times> world" where
  "invoke cb v w =
     (let w' = w\<lparr>trace := trace w @ [(cb, v)]\<rparr> in
      case cb of
        User n \<Rightarrow> (Return (), w')
      | Throwing n \<Rightarrow> (Throw (HostError ''callback''), w')
      | Internal n \<Rightarrow> run_closure (closures w' n) n v w')"

text \<open>
  \<^verbatim>\<open>listeners.forEach(callback => callback(current))\<close> of the cell \<open>c\<close>: in insertion order,
  reading \<^verbatim>\<open>current\<close> at each call, and stopping at a callback that throws.
\<close>

fun forEach :: "nat \<Rightarrow> callback list \<Rightarrow> world \<Rightarrow> unit outcome \<times> world" where
  "forEach c [] w = (Return (), w)"
| "forEach c (cb # cbs) w =
     (case invoke cb (current (cells w c)) w of
        (Throw x, w') \<Rightarrow> (Throw x, w')
      | (Return u, w') \<Rightarrow> forEach c cbs w')"

text \<open>
  \<^verbatim>\<open>set\<close>: of the cell; passed through by the URL enhancers; overridden by
  \<^verbatim>\<open>withValidation\<close> and by \<^verbatim>\<open>withDebounce\<close>.
\<close>

fun set' :: "container \<Rightarrow> valueOrUpdater \<Rightarrow> world \<Rightarrow> unit outcome \<times> world" where
  "set' (Cell c) valueOrUpdater w =
     (let next = resolve valueOrUpdater (current (cells w c)) in
      if \<not> strict_eq next (current (cells w c)) then
        (let w' = w\<lparr>cells := (cells w)(c := (cells w c)\<lparr>current := next\<rparr>)\<rparr>
         in forEach c (listeners (cells w' c)) w')
      else (Return (), w))"
| "set' (UrlParams h base) valueOrUpdater w = set' base valueOrUpdater w"
| "set' (HashParams h base) valueOrUpdater w = set' base valueOrUpdater w"
| "set' (Validation schema base) valueOrUpdater w =
     (let next = resolve valueOrUpdater (get base w) in
      case schema next of
        Issues is \<Rightarrow> (Throw (ValidationFailed is), w)
      | Valid v \<Rightarrow> set' base (Value v) w)"
| "set' (Debounce d ms base) valueOrUpdater w =
     (let w1 = clearTimeout (timeout w d) w;
          (t, w2) = setTimeout (base, valueOrUpdater) ms w1
      in (Return (), w2\<lparr>timeout := (timeout w2)(d := Some t)\<rparr>))"

text \<open>The functions \<^verbatim>\<open>subscribe\<close> returns.\<close>

datatype unsubscribe =
    Unsubscribe nat callback
  | UrlUnsubscribe unsubscribe nat
  | HashUnsubscribe unsubscribe nat

text \<open>\<^verbatim>\<open>Set.add\<close>: a callback already in the set is not added again.\<close>

definition add :: "callback \<Rightarrow> callback list \<Rightarrow> callback list" where
  "add cb ls = (if cb \<in> set ls then ls else ls @ [cb])"

fun subscribe :: "container \<Rightarrow> callback \<Rightarrow> world \<Rightarrow> unsubscribe outcome \<times> world" where
  "subscribe (Cell c) callback w =
     (let w1 = w\<lparr>cells := (cells w)(c := (cells w c)\<lparr>listeners := add callback (listeners (cells w c))\<rparr>)\<rparr>
      in case invoke callback (current (cells w1 c)) w1 of
           (Throw x, w2) \<Rightarrow> (Throw x, w2)
         | (Return u, w2) \<Rightarrow> (Return (Unsubscribe c callback), w2))"
| "subscribe (UrlParams h base) callback w =
     (case subscribe base callback w of
        (Throw x, w') \<Rightarrow> (Throw x, w')
      | (Return unsub, w') \<Rightarrow> (Return (UrlUnsubscribe unsub h), w'))"
| "subscribe (HashParams h base) callback w =
     (case subscribe base callback w of
        (Throw x, w') \<Rightarrow> (Throw x, w')
      | (Return unsub, w') \<Rightarrow> (Return (HashUnsubscribe unsub h), w'))"
| "subscribe (Validation schema base) callback w = subscribe base callback w"
| "subscribe (Debounce d ms base) callback w = subscribe base callback w"

text \<open>Calling such a function.\<close>

fun call :: "unsubscribe \<Rightarrow> world \<Rightarrow> world" where
  "call (Unsubscribe c callback) w =
     w\<lparr>cells := (cells w)(c := (cells w c)\<lparr>listeners := removeAll callback (listeners (cells w c))\<rparr>)\<rparr>"
| "call (UrlUnsubscribe unsub h) w = removeEventListener popstate h (call unsub w)"
| "call (HashUnsubscribe unsub h) w = removeEventListener hashchange h (call unsub w)"

section \<open>\<^verbatim>\<open>state\<close> and the enhancers\<close>

text \<open>\<^verbatim>\<open>state(initial)\<close>: a new \<^verbatim>\<open>current\<close>, a new empty set of listeners.\<close>

definition state :: "val \<Rightarrow> world \<Rightarrow> container \<times> world" where
  "state initial w =
     (let (c, w') = alloc w
      in (Cell c, w'\<lparr>cells := (cells w')(c := \<lparr>current = initial, listeners = []\<rparr>)\<rparr>))"

type_synonym enhancer = "container \<Rightarrow> world \<Rightarrow> container outcome \<times> world"

text \<open>
  The four lines the URL enhancers run at composition and again in their event handler:
  the parameters are copied into a new object, decoded, and
  \<^verbatim>\<open>base.set({ ...base.get(), ...decoded })\<close>.
\<close>

definition sync_from :: "codec \<Rightarrow> (string \<times> string) list \<Rightarrow> container \<Rightarrow> world \<Rightarrow> unit outcome \<times> world" where
  "sync_from cd params base w =
     (let (data, w1) = new_object (assign_all [] (map (\<lambda>(key, value). (key, Str value)) params)) w
      in case decode cd data of
           Throw x \<Rightarrow> (Throw x, w1)
         | Return decoded \<Rightarrow>
             (let (merged, w2) = new_object (spread_props (get base w1) decoded) w1
              in set' base (Value merged) w2))"

definition withUrlParams :: "codec \<Rightarrow> enhancer" where
  "withUrlParams cd base w =
     (if \<not> window_defined w then (Return base, w)
      else case sync_from cd (location_search w) base w of
        (Throw x, w1) \<Rightarrow> (Throw x, w1)
      | (Return u, w1) \<Rightarrow>
          (let (n, w2) = new_closure (UrlWriter cd) w1
           in case subscribe base (Internal n) w2 of
                (Throw x, w3) \<Rightarrow> (Throw x, w3)
              | (Return unsub, w3) \<Rightarrow>
                  (let (h, w4) = new_handler (HandlePopState cd base) w3
                   in (Return (UrlParams h base), addEventListener popstate h w4))))"

definition withHashParams :: "codec \<Rightarrow> enhancer" where
  "withHashParams cd base w =
     (if \<not> window_defined w then (Return base, w)
      else case sync_from cd (location_hash w) base w of
        (Throw x, w1) \<Rightarrow> (Throw x, w1)
      | (Return u, w1) \<Rightarrow>
          (let (n, w2) = new_closure (HashWriter cd) w1
           in case subscribe base (Internal n) w2 of
                (Throw x, w3) \<Rightarrow> (Throw x, w3)
              | (Return unsub, w3) \<Rightarrow>
                  (let (h, w4) = new_handler (HandleHashChange cd base) w3
                   in (Return (HashParams h base), addEventListener hashchange h w4))))"

text \<open>
  The \<^verbatim>\<open>try\<close> block of the hydration of \<^verbatim>\<open>withStorage\<close>: \<^verbatim>\<open>if (stored)\<close> skips a missing
  record and the empty string.
\<close>

definition storage_read :: "string \<Rightarrow> codec \<Rightarrow> container \<Rightarrow> world \<Rightarrow> unit outcome \<times> world" where
  "storage_read key cd base w =
     (case localStorage w key of
        None \<Rightarrow> (Return (), w)
      | Some stored \<Rightarrow>
          if stored = [] then (Return (), w)
          else
            (case JSON_parse w stored of
               Throw x \<Rightarrow> (Throw x, w)
             | Return parsed \<Rightarrow>
                 (case decode cd parsed of
                    Throw x \<Rightarrow> (Throw x, w)
                  | Return decoded \<Rightarrow>
                      (let (merged, w1) = new_object (spread_props (get base w) decoded) w
                       in set' base (Value merged) w1))))"

definition withStorage :: "string \<Rightarrow> codec \<Rightarrow> enhancer" where
  "withStorage key cd base w =
     (if \<not> window_defined w then (Return base, w)
      else let (u, w1) = try_catch (storage_read key cd base w);
               (n, w2) = new_closure (StorageWriter key cd) w1
           in case subscribe base (Internal n) w2 of
                (Throw x, w3) \<Rightarrow> (Throw x, w3)
              | (Return unsub, w3) \<Rightarrow> (Return base, w3))"

text \<open>
  \<^verbatim>\<open>withEffect(effect, options)\<close>. The effect function is the caller's, an observer like
  a \<open>User\<close> callback: its calls are recorded in \<open>effects\<close>. \<^verbatim>\<open>options.immediate\<close> may be
  missing. The variable \<^verbatim>\<open>previous\<close> belongs to the listener closure.
\<close>

definition call_effect :: "nat \<Rightarrow> val \<Rightarrow> val \<Rightarrow> world \<Rightarrow> world" where
  "call_effect effect v prev w = w\<lparr>effects := effects w @ [(effect, v, prev)]\<rparr>"

definition withEffect :: "nat \<Rightarrow> bool option \<Rightarrow> enhancer" where
  "withEffect effect immediate base w =
     (let (n, w0) = new_closure (EffectListener effect) w;
          w1 = w0\<lparr>previous := (previous w0)(n := get base w0)\<rparr>;
          w2 = (if immediate = Some True then call_effect effect (previous w1 n) (previous w1 n) w1 else w1)
      in case subscribe base (Internal n) w2 of
           (Throw x, w3) \<Rightarrow> (Throw x, w3)
         | (Return unsub, w3) \<Rightarrow> (Return base, w3))"

definition withValidation :: "(val \<Rightarrow> vresult) \<Rightarrow> enhancer" where
  "withValidation schema base w = (Return (Validation schema base), w)"


section \<open>Composition\<close>

text \<open>\<^verbatim>\<open>Array.prototype.reduce\<close> with an initial value; a callback that throws ends it.\<close>

fun reduce :: "('a \<Rightarrow> 'e \<Rightarrow> world \<Rightarrow> 'a outcome \<times> world) \<Rightarrow> 'e list \<Rightarrow> 'a \<Rightarrow> world \<Rightarrow> 'a outcome \<times> world" where
  "reduce f [] acc w = (Return acc, w)"
| "reduce f (x # xs) acc w =
     (case f acc x w of
        (Throw e, w') \<Rightarrow> (Throw e, w')
      | (Return acc', w') \<Rightarrow> reduce f xs acc' w')"

definition compose :: "container \<Rightarrow> enhancer list \<Rightarrow> world \<Rightarrow> container outcome \<times> world" where
  "compose base enhancers = reduce (\<lambda>current enhancer. enhancer current) enhancers base"

definition enhance :: "enhancer list \<Rightarrow> container \<Rightarrow> world \<Rightarrow> container outcome \<times> world" where
  "enhance enhancers = (\<lambda>base. compose base enhancers)"

section \<open>The event loop of the host\<close>

text \<open>
  A timer that fires runs \<^verbatim>\<open>() => { base.set(valueOrUpdater) }\<close>; the host reports what the
  callback throws and carries on.
\<close>

definition fire :: "timer \<Rightarrow> world \<Rightarrow> world" where
  "fire tm w =
     (case tm of (t, due, base, valueOrUpdater) \<Rightarrow>
        snd (set' base valueOrUpdater
               (w\<lparr>now := max (now w) due, timers := filter (\<lambda>tm'. fst tm' \<noteq> t) (timers w)\<rparr>)))"

text \<open>The pending timer that is due first; of two due together, the one set first.\<close>

fun earliest :: "timer list \<Rightarrow> timer option" where
  "earliest [] = None"
| "earliest (tm # tms) =
     (case earliest tms of
        None \<Rightarrow> Some tm
      | Some tm' \<Rightarrow> if fst (snd tm') < fst (snd tm) then Some tm' else Some tm)"

text \<open>
  Letting time pass until \<open>until\<close>: the timers due by then fire in order, those they set
  included. The first argument bounds the number of timers fired; \<open>None\<close> says the bound
  was reached with a timer still due.
\<close>

fun run_timers :: "nat \<Rightarrow> nat \<Rightarrow> world \<Rightarrow> world option" where
  "run_timers fuel until w =
     (case earliest (filter (\<lambda>tm. fst (snd tm) \<le> until) (timers w)) of
        None \<Rightarrow> Some (w\<lparr>now := max (now w) until\<rparr>)
      | Some tm \<Rightarrow>
          (case fuel of
             0 \<Rightarrow> None
           | Suc fuel' \<Rightarrow> run_timers fuel' until (fire tm w)))"


text \<open>A handler of the window called by the host, and an event dispatched to its listeners.\<close>

fun handle :: "handler \<Rightarrow> world \<Rightarrow> world" where
  "handle (HandlePopState cd base) w = snd (sync_from cd (location_search w) base w)"
| "handle (HandleHashChange cd base) w = snd (sync_from cd (location_hash w) base w)"

fun dispatch_to :: "(event \<times> nat) list \<Rightarrow> event \<Rightarrow> world \<Rightarrow> world" where
  "dispatch_to [] ev w = w"
| "dispatch_to ((ev', h) # ls) ev w =
     dispatch_to ls ev (if ev' = ev \<and> (ev', h) \<in> set (window_listeners w) then handle (handlers w h) w else w)"

definition dispatch :: "event \<Rightarrow> world \<Rightarrow> world" where
  "dispatch ev w = dispatch_to (window_listeners w) ev w"

section \<open>Auxiliary notions for the statements\<close>

text \<open>
  The composition law in the words of the specification,
  \<^verbatim>\<open>enhancer_n(...enhancer_2(enhancer_1(base)))\<close>: the list is read from the outermost
  enhancer inwards, and an enhancer that throws ends the composition.
\<close>

fun nested :: "enhancer list \<Rightarrow> container \<Rightarrow> world \<Rightarrow> container outcome \<times> world" where
  "nested [] base w = (Return base, w)"
| "nested (outer # inner) base w =
     (case nested inner base w of
        (Throw x, w') \<Rightarrow> (Throw x, w')
      | (Return c, w') \<Rightarrow> outer c w')"

text \<open>The cell a container reads and, in the end, writes.\<close>

fun cell_of :: "container \<Rightarrow> nat" where
  "cell_of (Cell c) = c"
| "cell_of (UrlParams h base) = cell_of base"
| "cell_of (HashParams h base) = cell_of base"
| "cell_of (Validation schema base) = cell_of base"
| "cell_of (Debounce d ms base) = cell_of base"

text \<open>
  Whether a callback returns normally when called with a value: an observer of the
  caller's does, a throwing callback does not, and every closure of the library does
  but the URL writers, which let an error of \<^verbatim>\<open>codec.encode\<close> through.
\<close>

fun closure_returns :: "closure \<Rightarrow> val \<Rightarrow> bool" where
  "closure_returns (EffectListener effect) v = True"
| "closure_returns (UrlWriter cd) v = (case encode cd v of Return encoded \<Rightarrow> True | Throw x \<Rightarrow> False)"
| "closure_returns (HashWriter cd) v = (case encode cd v of Return encoded \<Rightarrow> True | Throw x \<Rightarrow> False)"
| "closure_returns (StorageWriter key cd) v = True"

fun returns :: "world \<Rightarrow> callback \<Rightarrow> val \<Rightarrow> bool" where
  "returns w (User n) v = True"
| "returns w (Throwing n) v = False"
| "returns w (Internal n) v = closure_returns (closures w n) v"

text \<open>The calls of callbacks made between two worlds, the second a successor of the first.\<close>

definition calls_since :: "world \<Rightarrow> world \<Rightarrow> (callback \<times> val) list" where
  "calls_since w w' = drop (length (trace w)) (trace w')"

text \<open>
  A codec that passes values through, and a browser in which nothing has run yet: no
  record stored, an empty query and hash, no timer pending. Its \<^verbatim>\<open>JSON.parse\<close> reads only
  the text \<^verbatim>\<open>{}\<close>.
\<close>

definition plain_codec :: codec where
  "plain_codec = \<lparr>encode = Return, decode = Return\<rparr>"

definition browser :: world where
  "browser =
     \<lparr>window_defined = True,
      fresh = 0,
      cells = (\<lambda>c. \<lparr>current = Undefined, listeners = []\<rparr>),
      closures = (\<lambda>n. EffectListener 0),
      previous = (\<lambda>n. Undefined),
      timeout = (\<lambda>d. None),
      handlers = (\<lambda>h. HandlePopState plain_codec (Cell 0)),
      window_listeners = [],
      location_search = [],
      location_hash = [],
      localStorage = (\<lambda>key. None),
      quota_exceeded = (\<lambda>key s. False),
      JSON_parse = (\<lambda>s. if s = ''{}'' then Return (Obj 0 []) else Throw (HostError ''SyntaxError'')),
      JSON_stringify = (\<lambda>v. Return (js_String v)),
      now = 0,
      timers = [],
      trace = [],
      effects = []\<rparr>"

text \<open>A counter holding 0 that two callbacks of the caller's observe.\<close>

definition observed :: world where
  "observed = snd (subscribe (Cell 0) (User 2) (snd (subscribe (Cell 0) (User 1) (snd (state (Num 0) browser)))))"


text \<open>
  The schema of the repository's validation test, which wants a name of two characters
  or more, and a profile with an empty name that one callback observes.
\<close>

definition name_schema :: "val \<Rightarrow> vresult" where
  "name_schema v =
     (case map_of (own_props v) ''name'' of
        Some (Str s) \<Rightarrow>
          if 2 \<le> length s then Valid v
          else Issues [\<lparr>message = ''Name must be at least 2 characters'', path = Some [''name'']\<rparr>]
      | _ \<Rightarrow> Issues [\<lparr>message = ''Name must be at least 2 characters'', path = Some [''name'']\<rparr>])"

definition profile :: world where
  "profile = snd (subscribe (Cell 0) (User 1) (snd (state (Obj 100 [(''name'', Str ''''), (''age'', Num 25)]) browser)))"

text \<open>
  A page state synchronised with the query, and a tab state synchronised with the
  hash, each composed in the browser and then observed by two callbacks.
\<close>

definition url_synced :: "container outcome \<times> world" where
  "url_synced = withUrlParams plain_codec (Cell 0) (snd (state (Obj 100 [(''page'', Num 1)]) browser))"

definition hash_synced :: "container outcome \<times> world" where
  "hash_synced = withHashParams plain_codec (Cell 0) (snd (state (Obj 100 [(''tab'', Str ''home'')]) browser))"

definition url_watched :: world where
  "url_watched = snd (subscribe (UrlParams 4 (Cell 0)) (User 2) (snd (subscribe (UrlParams 4 (Cell 0)) (User 1) (snd url_synced))))"

definition hash_watched :: world where
  "hash_watched = snd (subscribe (HashParams 4 (Cell 0)) (User 2) (snd (subscribe (HashParams 4 (Cell 0)) (User 1) (snd hash_synced))))"

text \<open>
  A browser whose query, hash and storage each hold a page number (the stored record
  is the text \<^verbatim>\<open>{"page":4}\<close>), with a search state created in it.
\<close>

definition page4 :: string where
  "page4 = ''{'' @ CHR 0x22 # ''page'' @ CHR 0x22 # '':4}''"

definition visited :: world where
  "visited =
     snd (state (Obj 100 [(''query'', Str ''''), (''page'', Num 1)])
       (browser\<lparr>location_search := [(''page'', ''2'')],
                location_hash := [(''page'', ''3'')],
                localStorage := (\<lambda>key. if key = ''prefs'' then Some page4 else None),
                JSON_parse := (\<lambda>s. if s = page4 then Return (Obj 0 [(''page'', Num 4)])
                                  else Throw (HostError ''SyntaxError''))\<rparr>))"

text \<open>
  A browser whose storage is full and holds a record that does not parse, and a counter
  composed with \<^verbatim>\<open>withStorage\<close> in it.
\<close>

definition full :: world where
  "full = browser\<lparr>localStorage := (\<lambda>key. if key = ''prefs'' then Some ''{oops'' else None),
                  quota_exceeded := (\<lambda>key s. True)\<rparr>"

definition persisted :: world where
  "persisted = snd (withStorage ''prefs'' plain_codec (Cell 0) (snd (state (Num 0) full)))"





section \<open>Composition is a left-to-right fold\<close>

lemma reduce_snoc:
  "reduce f (xs @ [x]) acc w =
     (case reduce f xs acc w of
        (Throw e, w') \<Rightarrow> (Throw e, w')
      | (Return a, w') \<Rightarrow> f a x w')"
proof (induction xs arbitrary: acc w)
  case Nil
  show ?case by (simp split: prod.splits outcome.splits)
next
  case (Cons y ys)
  then show ?case by (simp split: prod.splits outcome.splits)
qed

lemma compose_nested: "compose base es w = nested (rev es) base w"
proof (induction es rule: rev_induct)
  case Nil
  show ?case by (simp add: compose_def)
next
  case (snoc e es)
  then show ?case
    by (simp add: compose_def reduce_snoc split: prod.splits outcome.splits)
qed

text \<open>
  C1. \<^verbatim>\<open>compose(base, e1, ..., en)\<close> is \<^verbatim>\<open>en(...(e2(e1(base))))\<close>: the fold of the source
  and the nested application of the specification agree on every base, every list of
  enhancers and every world, an enhancer that throws ending both; for three enhancers
  the nesting is written out. \<^verbatim>\<open>enhance(e1, ..., en)(base)\<close> is \<^verbatim>\<open>compose(base, e1, ..., en)\<close>.
\<close>

theorem compose_left_to_right:
  "compose base es w = nested (rev es) base w \<and>
   enhance es base w = compose base es w \<and>
   compose base [e1, e2, e3] w =
     (case e1 base w of
        (Throw x, w1) \<Rightarrow> (Throw x, w1)
      | (Return c1, w1) \<Rightarrow>
          (case e2 c1 w1 of
             (Throw x, w2) \<Rightarrow> (Throw x, w2)
           | (Return c2, w2) \<Rightarrow> e3 c2 w2))"
proof -
  have "enhance es base w = compose base es w"
    by (simp add: enhance_def)
  moreover have "compose base [e1, e2, e3] w =
     (case e1 base w of
        (Throw x, w1) \<Rightarrow> (Throw x, w1)
      | (Return c1, w1) \<Rightarrow>
          (case e2 c1 w1 of
             (Throw x, w2) \<Rightarrow> (Throw x, w2)
           | (Return c2, w2) \<Rightarrow> e3 c2 w2))"
    by (simp add: compose_def split: prod.splits outcome.splits)
  ultimately show ?thesis
    using compose_nested by blast
qed

section \<open>What a listener can and cannot change\<close>

lemma snd_try_catch [simp]: "snd (try_catch r) = snd r"
  by (cases r rule: try_catch.cases) simp_all

lemma fst_try_catch [simp]: "fst (try_catch r) = Return ()"
  by (cases r rule: try_catch.cases) simp_all

lemma storage_write_frame [simp]:
  "cells (snd (storage_write key cd v w)) = cells w"
  "closures (snd (storage_write key cd v w)) = closures w"
  "timers (snd (storage_write key cd v w)) = timers w"
  "fresh (snd (storage_write key cd v w)) = fresh w"
  "timeout (snd (storage_write key cd v w)) = timeout w"
  "handlers (snd (storage_write key cd v w)) = handlers w"
  "window_listeners (snd (storage_write key cd v w)) = window_listeners w"
  "now (snd (storage_write key cd v w)) = now w"
  "window_defined (snd (storage_write key cd v w)) = window_defined w"
  "trace (snd (storage_write key cd v w)) = trace w"
  "effects (snd (storage_write key cd v w)) = effects w"
  "previous (snd (storage_write key cd v w)) = previous w"
  by (simp_all add: storage_write_def setItem_def split: outcome.splits)

lemma run_closure_frame [simp]:
  "cells (snd (run_closure cl n v w)) = cells w"
  "closures (snd (run_closure cl n v w)) = closures w"
  "timers (snd (run_closure cl n v w)) = timers w"
  "fresh (snd (run_closure cl n v w)) = fresh w"
  "timeout (snd (run_closure cl n v w)) = timeout w"
  "handlers (snd (run_closure cl n v w)) = handlers w"
  "window_listeners (snd (run_closure cl n v w)) = window_listeners w"
  "now (snd (run_closure cl n v w)) = now w"
  "window_defined (snd (run_closure cl n v w)) = window_defined w"
  "trace (snd (run_closure cl n v w)) = trace w"
  by (cases cl; simp split: outcome.splits)+

lemma invoke_frame [simp]:
  "cells (snd (invoke cb v w)) = cells w"
  "closures (snd (invoke cb v w)) = closures w"
  "timers (snd (invoke cb v w)) = timers w"
  "fresh (snd (invoke cb v w)) = fresh w"
  "timeout (snd (invoke cb v w)) = timeout w"
  "handlers (snd (invoke cb v w)) = handlers w"
  "window_listeners (snd (invoke cb v w)) = window_listeners w"
  "now (snd (invoke cb v w)) = now w"
  "window_defined (snd (invoke cb v w)) = window_defined w"
  "trace (snd (invoke cb v w)) = trace w @ [(cb, v)]"
  by (cases cb; simp add: invoke_def)+

lemma run_closure_returns: "fst (run_closure cl n v w) = Return () \<longleftrightarrow> closure_returns cl v"
  by (cases cl) (simp_all split: outcome.splits)

lemma invoke_returns: "fst (invoke cb v w) = Return () \<longleftrightarrow> returns w cb v"
  by (cases cb) (simp_all add: invoke_def run_closure_returns)

lemma forEach_preserves:
  assumes "\<And>cb v w. f (snd (invoke cb v w)) = f w"
  shows "f (snd (forEach c ls w)) = f w"
proof (induction ls arbitrary: w)
  case Nil
  show ?case by simp
next
  case (Cons cb ls)
  obtain r w' where inv: "invoke cb (current (cells w c)) w = (r, w')"
    by (cases "invoke cb (current (cells w c)) w")
  then have w': "f w' = f w"
    using assms [of cb "current (cells w c)" w] by simp
  show ?case
  proof (cases r)
    case (Throw x)
    with inv w' show ?thesis by simp
  next
    case (Return u)
    with inv w' Cons.IH [of w'] show ?thesis by simp
  qed
qed

lemma forEach_frame [simp]:
  "cells (snd (forEach c ls w)) = cells w"
  "closures (snd (forEach c ls w)) = closures w"
  "timers (snd (forEach c ls w)) = timers w"
  "fresh (snd (forEach c ls w)) = fresh w"
  "timeout (snd (forEach c ls w)) = timeout w"
  "handlers (snd (forEach c ls w)) = handlers w"
  "window_listeners (snd (forEach c ls w)) = window_listeners w"
  "now (snd (forEach c ls w)) = now w"
  "window_defined (snd (forEach c ls w)) = window_defined w"
  by (rule forEach_preserves, simp)+

text \<open>The calls a round of notification makes: a prefix of the listeners, all of them when it returns.\<close>

lemma forEach_trace:
  "\<exists>k \<le> length ls. trace (snd (forEach c ls w)) = trace w @ map (\<lambda>cb. (cb, current (cells w c))) (take k ls)
      \<and> (fst (forEach c ls w) = Return () \<longrightarrow> k = length ls)"
proof (induction ls arbitrary: w)
  case Nil
  show ?case by simp
next
  case (Cons cb ls)
  obtain r w' where inv: "invoke cb (current (cells w c)) w = (r, w')"
    by (cases "invoke cb (current (cells w c)) w")
  then have w': "cells w' = cells w" "trace w' = trace w @ [(cb, current (cells w c))]"
    using invoke_frame(1,10) [of cb "current (cells w c)" w] by simp_all
  show ?case
  proof (cases r)
    case (Throw x)
    with inv w' have "trace (snd (forEach c (cb # ls) w)) = trace w @ map (\<lambda>cb. (cb, current (cells w c))) (take 1 (cb # ls))"
      "fst (forEach c (cb # ls) w) \<noteq> Return ()"
      by simp_all
    then show ?thesis by (intro exI [of _ 1]) simp
  next
    case (Return u)
    from Cons.IH [of w'] obtain k where k: "k \<le> length ls"
      "trace (snd (forEach c ls w')) = trace w' @ map (\<lambda>cb. (cb, current (cells w' c))) (take k ls)"
      "fst (forEach c ls w') = Return () \<longrightarrow> k = length ls"
      by blast
    with inv w' Return show ?thesis
      by (intro exI [of _ "Suc k"]) simp
  qed
qed

lemma forEach_returns:
  "(\<forall>cb \<in> set ls. returns w cb (current (cells w c))) \<Longrightarrow> fst (forEach c ls w) = Return ()"
proof (induction ls arbitrary: w)
  case Nil
  show ?case by simp
next
  case (Cons cb ls)
  obtain r w' where inv: "invoke cb (current (cells w c)) w = (r, w')"
    by (cases "invoke cb (current (cells w c)) w")
  then have w': "cells w' = cells w" "closures w' = closures w"
    using invoke_frame(1,2) [of cb "current (cells w c)" w] by simp_all
  have "r = Return ()"
    using invoke_returns [of cb "current (cells w c)" w] inv Cons.prems by simp
  moreover have "\<forall>cb \<in> set ls. returns w' cb (current (cells w' c))"
  proof
    fix cb' assume "cb' \<in> set ls"
    then have "returns w cb' (current (cells w c))" using Cons.prems by simp
    then show "returns w' cb' (current (cells w' c))"
      using w' by (cases cb') simp_all
  qed
  ultimately show ?case
    using inv Cons.IH [of w'] by simp
qed

lemma observed_simps:
  "cells observed 0 = \<lparr>current = Num 0, listeners = [User 1, User 2]\<rparr>"
  "trace observed = [(User 1, Num 0), (User 2, Num 0)]"
  by (simp_all add: observed_def state_def alloc_def browser_def invoke_def add_def)

section \<open>The container of \<^verbatim>\<open>state\<close>\<close>









section \<open>Subscribing and unsubscribing\<close>

lemma invoke_pair:
  assumes "invoke cb v w = (r, w2)"
  shows "cells w2 = cells w" and "trace w2 = trace w @ [(cb, v)]"
proof -
  have "w2 = snd (invoke cb v w)" using assms by simp
  then show "cells w2 = cells w" and "trace w2 = trace w @ [(cb, v)]" by simp_all
qed

lemma subscribe_trace: "trace (snd (subscribe k cb w)) = trace w @ [(cb, get k w)]"
proof (induction k)
  case (Cell c)
  let ?w1 = "w\<lparr>cells := (cells w)(c := (cells w c)\<lparr>listeners := add cb (listeners (cells w c))\<rparr>)\<rparr>"
  obtain r w2 where inv: "invoke cb (current (cells ?w1 c)) ?w1 = (r, w2)"
    by (cases "invoke cb (current (cells ?w1 c)) ?w1")
  from invoke_pair(2) [OF inv] have "trace w2 = trace w @ [(cb, current (cells w c))]"
    by simp
  with inv show ?case
    by (cases r) (simp_all add: Let_def)
next
  case (UrlParams h k)
  then show ?case by (cases "subscribe k cb w") (auto split: outcome.splits)
next
  case (HashParams h k)
  then show ?case by (cases "subscribe k cb w") (auto split: outcome.splits)
next
  case (Validation s k)
  then show ?case by simp
next
  case (Debounce d ms k)
  then show ?case by simp
qed

lemma subscribe_cells:
  "cells (snd (subscribe k cb w)) =
     (cells w)(cell_of k := (cells w (cell_of k))\<lparr>listeners := add cb (listeners (cells w (cell_of k)))\<rparr>)"
proof (induction k)
  case (Cell c)
  let ?w1 = "w\<lparr>cells := (cells w)(c := (cells w c)\<lparr>listeners := add cb (listeners (cells w c))\<rparr>)\<rparr>"
  obtain r w2 where inv: "invoke cb (current (cells ?w1 c)) ?w1 = (r, w2)"
    by (cases "invoke cb (current (cells ?w1 c)) ?w1")
  from invoke_pair(1) [OF inv] have "cells w2 = cells ?w1" .
  with inv show ?case
    by (cases r) (simp_all add: Let_def)
next
  case (UrlParams h k)
  then show ?case by (cases "subscribe k cb w") (auto split: outcome.splits)
next
  case (HashParams h k)
  then show ?case by (cases "subscribe k cb w") (auto split: outcome.splits)
next
  case (Validation s k)
  then show ?case by simp
next
  case (Debounce d ms k)
  then show ?case by simp
qed

lemma subscribe_returns:
  "returns w cb (get k w) \<Longrightarrow> \<exists>u. fst (subscribe k cb w) = Return u"
proof (induction k)
  case (Cell c)
  let ?w1 = "w\<lparr>cells := (cells w)(c := (cells w c)\<lparr>listeners := add cb (listeners (cells w c))\<rparr>)\<rparr>"
  have "returns ?w1 cb (current (cells ?w1 c))"
    using Cell by (cases cb) simp_all
  then have "fst (invoke cb (current (cells ?w1 c)) ?w1) = Return ()"
    by (simp only: invoke_returns)
  then show ?case
    by (cases "invoke cb (current (cells ?w1 c)) ?w1") (simp add: Let_def)
next
  case (UrlParams h k)
  then show ?case by (cases "subscribe k cb w") (auto split: outcome.splits)
next
  case (HashParams h k)
  then show ?case by (cases "subscribe k cb w") (auto split: outcome.splits)
next
  case (Validation s k)
  then show ?case by simp
next
  case (Debounce d ms k)
  then show ?case by simp
qed

lemma call_cells:
  "fst (subscribe k cb w) = Return u \<Longrightarrow>
   cells (call u w') =
     (cells w')(cell_of k := (cells w' (cell_of k))\<lparr>listeners := removeAll cb (listeners (cells w' (cell_of k)))\<rparr>)"
proof (induction k arbitrary: u)
  case (Cell c)
  then have "u = Unsubscribe c cb"
    by (cases "invoke cb (current (cells w c)) (w\<lparr>cells := (cells w)(c := (cells w c)\<lparr>listeners := add cb (listeners (cells w c))\<rparr>)\<rparr>)")
       (auto simp add: Let_def split: outcome.splits)
  then show ?case by simp
next
  case (UrlParams h k)
  then obtain u' where "fst (subscribe k cb w) = Return u'" "u = UrlUnsubscribe u' h"
    by (cases "subscribe k cb w") (auto split: outcome.splits)
  with UrlParams.IH [of u'] show ?case by (simp add: removeEventListener_def)
next
  case (HashParams h k)
  then obtain u' where "fst (subscribe k cb w) = Return u'" "u = HashUnsubscribe u' h"
    by (cases "subscribe k cb w") (auto split: outcome.splits)
  with HashParams.IH [of u'] show ?case by (simp add: removeEventListener_def)
next
  case (Validation s k)
  then show ?case by simp
next
  case (Debounce d ms k)
  then show ?case by simp
qed

lemma removeAll_swap: "removeAll a (removeAll b xs) = removeAll b (removeAll a xs)"
  by (induction xs) auto

lemma call_removeEventListener:
  "call u (removeEventListener ev h w) = removeEventListener ev h (call u w)"
proof (induction u arbitrary: w ev h)
  case (Unsubscribe c cb)
  show ?case by (simp add: removeEventListener_def)
next
  case (UrlUnsubscribe u h')
  have "removeEventListener popstate h' (removeEventListener ev h (call u w)) =
        removeEventListener ev h (removeEventListener popstate h' (call u w))"
    by (simp add: removeEventListener_def removeAll_swap [of "(popstate, h')"])
  with UrlUnsubscribe show ?case by simp
next
  case (HashUnsubscribe u h')
  have "removeEventListener hashchange h' (removeEventListener ev h (call u w)) =
        removeEventListener ev h (removeEventListener hashchange h' (call u w))"
    by (simp add: removeEventListener_def removeAll_swap [of "(hashchange, h')"])
  with HashUnsubscribe show ?case by simp
qed

lemma removeEventListener_idem:
  "removeEventListener ev h (removeEventListener ev h w) = removeEventListener ev h w"
  by (simp add: removeEventListener_def)

lemma call_idem: "call u (call u w) = call u w"
proof (induction u arbitrary: w)
  case (Unsubscribe c cb)
  show ?case by simp
next
  case (UrlUnsubscribe u h)
  then show ?case by (simp add: call_removeEventListener removeEventListener_idem)
next
  case (HashUnsubscribe u h)
  then show ?case by (simp add: call_removeEventListener removeEventListener_idem)
qed

lemma setTimeout_frame [simp]:
  "cells (snd (setTimeout f ms w)) = cells w"
  "trace (snd (setTimeout f ms w)) = trace w"
  "closures (snd (setTimeout f ms w)) = closures w"
  "timeout (snd (setTimeout f ms w)) = timeout w"
  "now (snd (setTimeout f ms w)) = now w"
  "fst (setTimeout f ms w) = fresh w"
  "timers (snd (setTimeout f ms w)) = timers w @ [(fresh w, now w + ms, f)]"
  by (simp_all add: setTimeout_def alloc_def)

lemma clearTimeout_frame [simp]:
  "cells (clearTimeout t w) = cells w"
  "trace (clearTimeout t w) = trace w"
  "closures (clearTimeout t w) = closures w"
  "timeout (clearTimeout t w) = timeout w"
  "now (clearTimeout t w) = now w"
  "fresh (clearTimeout t w) = fresh w"
  by (cases t; simp)+

text \<open>A \<^verbatim>\<open>set\<close> calls nobody but listeners of the cell beneath the container.\<close>

lemma set_calls:
  "\<exists>new. trace (snd (set' k vu w)) = trace w @ new \<and>
         fst ` set new \<subseteq> set (listeners (cells w (cell_of k)))"
proof (induction k arbitrary: vu w)
  case (Cell c)
  show ?case
  proof (cases "strict_eq (resolve vu (current (cells w c))) (current (cells w c))")
    case True
    then show ?thesis by simp
  next
    case False
    define w' where "w' = w\<lparr>cells := (cells w)(c := (cells w c)\<lparr>current := resolve vu (current (cells w c))\<rparr>)\<rparr>"
    from forEach_trace [of "listeners (cells w c)" c w'] obtain n where
      "trace (snd (forEach c (listeners (cells w c)) w')) =
         trace w' @ map (\<lambda>cb. (cb, current (cells w' c))) (take n (listeners (cells w c)))"
      by blast
    moreover have "fst ` set (map (\<lambda>cb. (cb, current (cells w' c))) (take n (listeners (cells w c))))
        \<subseteq> set (listeners (cells w c))"
      by (auto dest: in_set_takeD)
    moreover have "set' (Cell c) vu w = forEach c (listeners (cells w c)) w'"
      using False by (simp add: w'_def Let_def)
    moreover have "trace w' = trace w" by (simp add: w'_def)
    ultimately show ?thesis by (metis cell_of.simps(1))
  qed
next
  case (UrlParams h k)
  then show ?case by simp
next
  case (HashParams h k)
  then show ?case by simp
next
  case (Validation schema k)
  show ?case
  proof (cases "schema (resolve vu (get k w))")
    case (Issues iss)
    then show ?thesis by simp
  next
    case (Valid v)
    with Validation [of "Value v" w] show ?thesis by simp
  qed
next
  case (Debounce d ms k)
  obtain t w2 where st: "setTimeout (k, vu) ms (clearTimeout (timeout w d) w) = (t, w2)"
    by (cases "setTimeout (k, vu) ms (clearTimeout (timeout w d) w)")
  have "trace w2 = trace w"
    using setTimeout_frame(2) [of "(k, vu)" ms "clearTimeout (timeout w d) w"] st by simp
  with st show ?case by (simp add: Let_def)
qed

lemma set_calls_since:
  "fst ` set (calls_since w (snd (set' k vu w))) \<subseteq> set (listeners (cells w (cell_of k)))"
proof -
  from set_calls [of k vu w] obtain new where
    new: "trace (snd (set' k vu w)) = trace w @ new"
      "fst ` set new \<subseteq> set (listeners (cells w (cell_of k)))"
    by blast
  from new(1) have "calls_since w (snd (set' k vu w)) = new"
    by (simp add: calls_since_def)
  with new(2) show ?thesis by simp
qed

lemma subscribe_throws:
  "\<not> returns w cb (get k w) \<Longrightarrow> \<exists>x. fst (subscribe k cb w) = Throw x"
proof (induction k)
  case (Cell c)
  let ?w1 = "w\<lparr>cells := (cells w)(c := (cells w c)\<lparr>listeners := add cb (listeners (cells w c))\<rparr>)\<rparr>"
  have "\<not> returns ?w1 cb (current (cells ?w1 c))"
    using Cell by (cases cb) simp_all
  then have "fst (invoke cb (current (cells ?w1 c)) ?w1) \<noteq> Return ()"
    by (simp only: invoke_returns) simp
  then show ?case
    by (cases "invoke cb (current (cells ?w1 c)) ?w1"; cases "fst (invoke cb (current (cells ?w1 c)) ?w1)")
       (simp_all add: Let_def)
next
  case (UrlParams h k)
  then show ?case by (cases "subscribe k cb w") (auto split: outcome.splits)
next
  case (HashParams h k)
  then show ?case by (cases "subscribe k cb w") (auto split: outcome.splits)
next
  case (Validation s k)
  then show ?case by simp
next
  case (Debounce d ms k)
  then show ?case by simp
qed

text \<open>
  C3, amended. \<^verbatim>\<open>subscribe(cb)\<close> on any container: the one callback called during the call is
  \<open>cb\<close>, once, with the current value, and \<open>cb\<close> is then a listener of the cell beneath
  the container. When \<open>cb\<close> returns normally the call returns a function; whenever
  that function is called, in whatever later world, \<open>cb\<close> is no longer a listener,
  calling it a second time changes nothing, and a \<^verbatim>\<open>set\<close> on any container over the same
  cell made after it does not call \<open>cb\<close>. When \<open>cb\<close> throws, the call throws and returns
  no function. Callbacks are closures that observe or throw; they do not call back into
  the container.
\<close>

theorem subscribe_replay_unsubscribe:
  "calls_since w (snd (subscribe k cb w)) = [(cb, get k w)] \<and>
   cb \<in> set (listeners (cells (snd (subscribe k cb w)) (cell_of k))) \<and>
   (returns w cb (get k w) \<longrightarrow> (\<exists>u. fst (subscribe k cb w) = Return u)) \<and>
   (\<not> returns w cb (get k w) \<longrightarrow> (\<exists>x. fst (subscribe k cb w) = Throw x)) \<and>
   (\<forall>u w'. fst (subscribe k cb w) = Return u \<longrightarrow>
      cb \<notin> set (listeners (cells (call u w') (cell_of k))) \<and>
      call u (call u w') = call u w' \<and>
      (\<forall>k' vu. cell_of k' = cell_of k \<longrightarrow>
         cb \<notin> fst ` set (calls_since (call u w') (snd (set' k' vu (call u w'))))))"
proof -
  have once: "calls_since w (snd (subscribe k cb w)) = [(cb, get k w)]"
    by (simp add: calls_since_def subscribe_trace)
  have registered: "cb \<in> set (listeners (cells (snd (subscribe k cb w)) (cell_of k)))"
    by (simp add: subscribe_cells add_def)
  have after: "cb \<notin> set (listeners (cells (call u w') (cell_of k))) \<and>
      call u (call u w') = call u w' \<and>
      (\<forall>k' vu. cell_of k' = cell_of k \<longrightarrow>
         cb \<notin> fst ` set (calls_since (call u w') (snd (set' k' vu (call u w')))))"
    if u: "fst (subscribe k cb w) = Return u" for u w'
  proof -
    have gone: "cb \<notin> set (listeners (cells (call u w') (cell_of k)))"
      by (simp add: call_cells [OF u])
    moreover have "cb \<notin> fst ` set (calls_since (call u w') (snd (set' k' vu (call u w'))))"
      if "cell_of k' = cell_of k" for k' vu
      using set_calls_since [of "call u w'" k' vu] gone that by auto
    ultimately show ?thesis
      by (simp add: call_idem)
  qed
  show ?thesis
    using once registered subscribe_returns [of w cb k] subscribe_throws [of w cb k] after by blast
qed

theorem subscribe_replay_unsubscribe_witness:
  "(\<exists>x. fst (subscribe (Cell 0) (Throwing 4) observed) = Throw x) \<and>
   calls_since observed (snd (subscribe (Cell 0) (User 3) observed)) = [(User 3, Num 0)] \<and>
   User 3 \<in> set (listeners (cells (snd (subscribe (Cell 0) (User 3) observed)) 0)) \<and>
   fst (subscribe (Cell 0) (User 3) observed) = Return (Unsubscribe 0 (User 3)) \<and>
   User 3 \<notin> set (listeners (cells (call (Unsubscribe 0 (User 3)) (snd (subscribe (Cell 0) (User 3) observed))) 0)) \<and>
   call (Unsubscribe 0 (User 3)) (call (Unsubscribe 0 (User 3)) (snd (subscribe (Cell 0) (User 3) observed))) =
     call (Unsubscribe 0 (User 3)) (snd (subscribe (Cell 0) (User 3) observed)) \<and>
   User 3 \<notin> fst ` set (calls_since (call (Unsubscribe 0 (User 3)) (snd (subscribe (Cell 0) (User 3) observed)))
       (snd (set' (Cell 0) (Value (Num 7)) (call (Unsubscribe 0 (User 3)) (snd (subscribe (Cell 0) (User 3) observed))))))"
proof -
  let ?w1 = "snd (subscribe (Cell 0) (User 3) observed)"
  let ?u = "Unsubscribe 0 (User 3)"
  note T = subscribe_replay_unsubscribe [of observed "Cell 0" "User 3"]
  have r: "fst (subscribe (Cell 0) (User 3) observed) = Return ?u"
    by (simp add: invoke_def)
  from T have once: "calls_since observed ?w1 = [(User 3, get (Cell 0) observed)]"
    and registered: "User 3 \<in> set (listeners (cells ?w1 (cell_of (Cell 0))))"
    by blast+
  from T r have after: "User 3 \<notin> set (listeners (cells (call ?u ?w1) (cell_of (Cell 0)))) \<and>
      call ?u (call ?u ?w1) = call ?u ?w1 \<and>
      (\<forall>k' vu. cell_of k' = cell_of (Cell 0) \<longrightarrow>
         User 3 \<notin> fst ` set (calls_since (call ?u ?w1) (snd (set' k' vu (call ?u ?w1)))))"
    by blast
  then have "User 3 \<notin> fst ` set (calls_since (call ?u ?w1) (snd (set' (Cell 0) (Value (Num 7)) (call ?u ?w1))))"
    by blast
  moreover have "\<exists>x. fst (subscribe (Cell 0) (Throwing 4) observed) = Throw x"
    using subscribe_replay_unsubscribe [of observed "Cell 0" "Throwing 4"] by simp
  ultimately show ?thesis
    using once registered r after by (simp add: observed_simps)
qed

text \<open>
  The claim C3 as stated fails for a callback that throws: \<^verbatim>\<open>subscribe\<close> calls it once and
  throws, so no unsubscribe function is returned, and the callback stays registered: the
  next \<^verbatim>\<open>set\<close> calls it again.
\<close>

theorem subscribe_returns_unsubscribe_counterexample:
  "fst (subscribe (Cell 0) (Throwing 4) observed) = Throw (HostError ''callback'') \<and>
   calls_since observed (snd (subscribe (Cell 0) (Throwing 4) observed)) = [(Throwing 4, Num 0)] \<and>
   listeners (cells (snd (subscribe (Cell 0) (Throwing 4) observed)) 0) = [User 1, User 2, Throwing 4] \<and>
   calls_since (snd (subscribe (Cell 0) (Throwing 4) observed))
     (snd (set' (Cell 0) (Value (Num 7)) (snd (subscribe (Cell 0) (Throwing 4) observed)))) =
     [(User 1, Num 7), (User 2, Num 7), (Throwing 4, Num 7)]"
  by (simp add: observed_simps invoke_def add_def calls_since_def Let_def)

section \<open>The validation gate\<close>

lemma profile_simps:
  "cells profile 0 = \<lparr>current = Obj 100 [(''name'', Str ''''), (''age'', Num 25)], listeners = [User 1]\<rparr>"
  by (simp add: profile_def state_def alloc_def browser_def invoke_def add_def)

text \<open>
  C4. On a container enhanced by \<^verbatim>\<open>withValidation\<close>, a \<^verbatim>\<open>set\<close> whose candidate (an updater
  resolved against the current inner value) the schema rejects with at least one issue
  throws the error carrying those issues; the world is what it was before the call, so
  the inner container was not written, no callback was called, and \<^verbatim>\<open>get()\<close> returns the
  value it returned before.
\<close>

theorem validation_rejects:
  assumes "withValidation schema base w0 = (Return k, w1)"
    and "schema (resolve valueOrUpdater (get base w)) = Issues (i # rest)"
  shows "set' k valueOrUpdater w = (Throw (ValidationFailed (i # rest)), w) \<and>
         get k (snd (set' k valueOrUpdater w)) = get k w \<and>
         get base (snd (set' k valueOrUpdater w)) = get base w \<and>
         calls_since w (snd (set' k valueOrUpdater w)) = []"
proof -
  from assms(1) have k: "k = Validation schema base"
    by (simp add: withValidation_def)
  with assms(2) have "set' k valueOrUpdater w = (Throw (ValidationFailed (i # rest)), w)"
    by simp
  then show ?thesis
    by (simp add: calls_since_def)
qed

theorem validation_rejects_witness:
  "set' (Validation name_schema (Cell 0)) (Value (Obj 101 [(''name'', Str ''A''), (''age'', Num 25)])) profile =
     (Throw (ValidationFailed [\<lparr>message = ''Name must be at least 2 characters'', path = Some [''name'']\<rparr>]), profile) \<and>
   get (Validation name_schema (Cell 0))
     (snd (set' (Validation name_schema (Cell 0)) (Value (Obj 101 [(''name'', Str ''A''), (''age'', Num 25)])) profile)) =
     Obj 100 [(''name'', Str ''''), (''age'', Num 25)] \<and>
   calls_since profile
     (snd (set' (Validation name_schema (Cell 0)) (Value (Obj 101 [(''name'', Str ''A''), (''age'', Num 25)])) profile)) = []"
proof -
  have a: "withValidation name_schema (Cell 0) browser = (Return (Validation name_schema (Cell 0)), browser)"
    by (simp add: withValidation_def)
  have b: "name_schema (resolve (Value (Obj 101 [(''name'', Str ''A''), (''age'', Num 25)])) (get (Cell 0) profile)) =
      Issues (\<lparr>message = ''Name must be at least 2 characters'', path = Some [''name'']\<rparr> # [])"
    by (simp add: name_schema_def)
  show ?thesis
    using validation_rejects [OF a b] by (simp add: profile_simps name_schema_def calls_since_def)
qed

section \<open>The side-effect runner\<close>

lemma subscribe_effects:
  "closures w n = EffectListener e \<Longrightarrow>
   effects (snd (subscribe k (Internal n) w)) = effects w @ [(e, get k w, previous w n)]"
proof (induction k)
  case (Cell c)
  let ?w1 = "w\<lparr>cells := (cells w)(c := (cells w c)\<lparr>listeners := add (Internal n) (listeners (cells w c))\<rparr>)\<rparr>"
  have "invoke (Internal n) (current (cells ?w1 c)) ?w1 =
      (Return (), ?w1\<lparr>trace := trace w @ [(Internal n, current (cells w c))],
                       effects := effects w @ [(e, current (cells w c), previous w n)],
                       previous := (previous w)(n := current (cells w c))\<rparr>)"
    using Cell by (simp add: invoke_def)
  then show ?case by (simp add: Let_def)
next
  case (UrlParams h k)
  then show ?case by (cases "subscribe k (Internal n) w") (auto split: outcome.splits)
next
  case (HashParams h k)
  then show ?case by (cases "subscribe k (Internal n) w") (auto split: outcome.splits)
next
  case (Validation s k)
  then show ?case by simp
next
  case (Debounce d ms k)
  then show ?case by simp
qed

lemma get_frame:
  "cells w' = cells w \<Longrightarrow> get k w' = get k w"
  by (induction k) simp_all

lemma withEffect_effects:
  "effects (snd (withEffect effect immediate base w)) =
     effects w @
       (if immediate = Some True
        then [(effect, get base w, get base w), (effect, get base w, get base w)]
        else [(effect, get base w, get base w)])"
proof -
  define n where "n = fresh w"
  define w0 where "w0 = w\<lparr>fresh := Suc (fresh w), closures := (closures w)(n := EffectListener effect)\<rparr>"
  define w1 where "w1 = w0\<lparr>previous := (previous w0)(n := get base w0)\<rparr>"
  define w2 where "w2 = (if immediate = Some True then call_effect effect (previous w1 n) (previous w1 n) w1 else w1)"
  have g0: "get base w0 = get base w" by (rule get_frame) (simp add: w0_def)
  have g2: "get base w2 = get base w" by (rule get_frame) (simp add: w2_def w1_def w0_def call_effect_def)
  have c2: "closures w2 n = EffectListener effect"
    by (simp add: w2_def w1_def w0_def call_effect_def)
  have p2: "previous w2 n = get base w"
    by (simp add: w2_def w1_def call_effect_def g0)
  have e0: "effects w0 = effects w" by (simp add: w0_def)
  have e2: "effects w2 = effects w @ (if immediate = Some True then [(effect, get base w, get base w)] else [])"
    by (simp add: w2_def w1_def call_effect_def g0 e0)
  have "withEffect effect immediate base w =
      (case subscribe base (Internal n) w2 of
         (Throw x, w3) \<Rightarrow> (Throw x, w3)
       | (Return unsub, w3) \<Rightarrow> (Return base, w3))"
    by (simp add: withEffect_def new_closure_def alloc_def Let_def w2_def w1_def w0_def n_def)
  then have "snd (withEffect effect immediate base w) = snd (subscribe base (Internal n) w2)"
    by (cases "subscribe base (Internal n) w2") (auto split: outcome.splits)
  with subscribe_effects [OF c2, of base] show ?thesis
    by (simp add: e2 p2 g2)
qed

lemma compose_single: "snd (compose base [e] w) = snd (e base w)"
  by (cases "e base w") (auto simp add: compose_def split: outcome.splits)

text \<open>
  C6. What the source does at composition time in \<^verbatim>\<open>compose(state(0), withEffect(effect))\<close>
  and in \<^verbatim>\<open>compose(state(0), withEffect(effect, { immediate: true }))\<close>: the listener
  that \<^verbatim>\<open>withEffect\<close> subscribes is replayed by \<^verbatim>\<open>subscribe\<close>, so the effect runs once with
  \<open>(0, 0)\<close> without the option and twice with it.
\<close>

theorem withEffect_runs_at_composition:
  "effects (snd (compose (Cell 0) [withEffect 7 None] (snd (state (Num 0) browser)))) =
     [(7, Num 0, Num 0)] \<and>
   effects (snd (compose (Cell 0) [withEffect 7 (Some False)] (snd (state (Num 0) browser)))) =
     [(7, Num 0, Num 0)] \<and>
   effects (snd (compose (Cell 0) [withEffect 7 (Some True)] (snd (state (Num 0) browser)))) =
     [(7, Num 0, Num 0), (7, Num 0, Num 0)]"
  by (simp add: compose_single withEffect_effects) (simp add: state_def alloc_def browser_def)

section \<open>The URL enhancers and their event listener\<close>

lemma url_synced_simps:
  "fst url_synced = Return (UrlParams 4 (Cell 0))"
  "window_listeners (snd url_synced) = [(popstate, 4)]"
  "cells (snd url_synced) 0 = \<lparr>current = Obj 2 [(''page'', Num 1)], listeners = [Internal 3]\<rparr>"
  by (simp_all add: url_synced_def withUrlParams_def sync_from_def new_object_def new_closure_def new_handler_def
      addEventListener_def state_def alloc_def browser_def invoke_def add_def plain_codec_def spread_props_def Let_def)

lemma hash_synced_simps:
  "fst hash_synced = Return (HashParams 4 (Cell 0))"
  "window_listeners (snd hash_synced) = [(hashchange, 4)]"
  "cells (snd hash_synced) 0 = \<lparr>current = Obj 2 [(''tab'', Str ''home'')], listeners = [Internal 3]\<rparr>"
  by (simp_all add: hash_synced_def withHashParams_def sync_from_def new_object_def new_closure_def new_handler_def
      addEventListener_def state_def alloc_def browser_def invoke_def add_def plain_codec_def spread_props_def Let_def)

lemma addEventListener_simps [simp]:
  "(ev, h) \<in> set (window_listeners (addEventListener ev h w))"
  "handlers (addEventListener ev h w) = handlers w"
  "cells (addEventListener ev h w) = cells w"
  by (simp_all add: addEventListener_def)

lemma new_handler_simps [simp]:
  "fst (new_handler body w) = fresh w"
  "handlers (snd (new_handler body w)) = (handlers w)(fresh w := body)"
  "cells (snd (new_handler body w)) = cells w"
  "window_listeners (snd (new_handler body w)) = window_listeners w"
  by (simp_all add: new_handler_def alloc_def)

lemma withUrlParams_result:
  assumes "window_defined w0" and "fst (withUrlParams cd base w0) = Return k"
  shows "\<exists>h. k = UrlParams h base \<and> handlers (snd (withUrlParams cd base w0)) h = HandlePopState cd base \<and>
             (popstate, h) \<in> set (window_listeners (snd (withUrlParams cd base w0)))"
proof -
  obtain r1 w1 where s1: "sync_from cd (location_search w0) base w0 = (r1, w1)"
    by (cases "sync_from cd (location_search w0) base w0")
  obtain n w2 where s2: "new_closure (UrlWriter cd) w1 = (n, w2)"
    by (cases "new_closure (UrlWriter cd) w1")
  obtain r3 w3 where s3: "subscribe base (Internal n) w2 = (r3, w3)"
    by (cases "subscribe base (Internal n) w2")
  obtain h w4 where s4: "new_handler (HandlePopState cd base) w3 = (h, w4)"
    by (cases "new_handler (HandlePopState cd base) w3")
  from assms s1 s2 s3 s4 have res: "withUrlParams cd base w0 = (Return (UrlParams h base), addEventListener popstate h w4)"
    and k: "k = UrlParams h base"
    by (auto simp add: withUrlParams_def split: outcome.splits)
  have "handlers w4 h = HandlePopState cd base"
    using new_handler_simps(1,2) [of "HandlePopState cd base" w3] s4 by simp
  with res k show ?thesis by simp
qed

lemma withHashParams_result:
  assumes "window_defined w0" and "fst (withHashParams cd base w0) = Return k"
  shows "\<exists>h. k = HashParams h base \<and> handlers (snd (withHashParams cd base w0)) h = HandleHashChange cd base \<and>
             (hashchange, h) \<in> set (window_listeners (snd (withHashParams cd base w0)))"
proof -
  obtain r1 w1 where s1: "sync_from cd (location_hash w0) base w0 = (r1, w1)"
    by (cases "sync_from cd (location_hash w0) base w0")
  obtain n w2 where s2: "new_closure (HashWriter cd) w1 = (n, w2)"
    by (cases "new_closure (HashWriter cd) w1")
  obtain r3 w3 where s3: "subscribe base (Internal n) w2 = (r3, w3)"
    by (cases "subscribe base (Internal n) w2")
  obtain h w4 where s4: "new_handler (HandleHashChange cd base) w3 = (h, w4)"
    by (cases "new_handler (HandleHashChange cd base) w3")
  from assms s1 s2 s3 s4 have res: "withHashParams cd base w0 = (Return (HashParams h base), addEventListener hashchange h w4)"
    and k: "k = HashParams h base"
    by (auto simp add: withHashParams_def split: outcome.splits)
  have "handlers w4 h = HandleHashChange cd base"
    using new_handler_simps(1,2) [of "HandleHashChange cd base" w3] s4 by simp
  with res k show ?thesis by simp
qed

lemma url_unsubscribe:
  assumes "fst (subscribe (UrlParams h base) cb w) = Return u"
  shows "(popstate, h) \<notin> set (window_listeners (call u w'))"
proof -
  from assms obtain u' where "u = UrlUnsubscribe u' h"
    by (cases "subscribe base cb w") (auto split: outcome.splits)
  then show ?thesis by (simp add: removeEventListener_def)
qed

lemma hash_unsubscribe:
  assumes "fst (subscribe (HashParams h base) cb w) = Return u"
  shows "(hashchange, h) \<notin> set (window_listeners (call u w'))"
proof -
  from assms obtain u' where "u = HashUnsubscribe u' h"
    by (cases "subscribe base cb w") (auto split: outcome.splits)
  then show ?thesis by (simp add: removeEventListener_def)
qed

lemma unsubscribe_one:
  assumes "fst (subscribe k cb w) = Return u"
  shows "cb \<notin> set (listeners (cells (call u w') (cell_of k))) \<and>
         (\<forall>other. other \<noteq> cb \<and> other \<in> set (listeners (cells w' (cell_of k))) \<longrightarrow>
                  other \<in> set (listeners (cells (call u w') (cell_of k))))"
  by (simp add: call_cells [OF assms])

lemma url_watched_simps:
  "listeners (cells url_watched 0) = [Internal 3, User 1, User 2]"
  "window_listeners url_watched = [(popstate, 4)]"
  "fst (subscribe (UrlParams 4 (Cell 0)) (User 1) (snd url_synced)) = Return (UrlUnsubscribe (Unsubscribe 0 (User 1)) 4)"
  by (simp_all add: url_watched_def url_synced_simps invoke_def add_def)

lemma hash_watched_simps:
  "listeners (cells hash_watched 0) = [Internal 3, User 1, User 2]"
  "window_listeners hash_watched = [(hashchange, 4)]"
  "fst (subscribe (HashParams 4 (Cell 0)) (User 1) (snd hash_synced)) = Return (HashUnsubscribe (Unsubscribe 0 (User 1)) 4)"
  by (simp_all add: hash_watched_def hash_synced_simps invoke_def add_def)

lemma state_window_defined: "window_defined (snd (state v w)) = window_defined w"
  by (simp add: state_def alloc_def)

text \<open>
  C7. In a browser, \<^verbatim>\<open>withUrlParams\<close> returns a container whose \<^verbatim>\<open>popstate\<close> handler is
  registered with the window. Calling the function returned by any one \<^verbatim>\<open>subscribe\<close> of
  that container, in any later world, removes that subscriber's callback from the
  listeners and removes the handler from the window, while every other callback
  registered stays registered. The same holds of \<^verbatim>\<open>withHashParams\<close> and its \<^verbatim>\<open>hashchange\<close>
  handler.
\<close>

theorem unsubscribe_removes_external_listener:
  "(window_defined w0 \<and> fst (withUrlParams cd base w0) = Return k \<and> fst (subscribe k cb w) = Return u \<longrightarrow>
      (\<exists>h. k = UrlParams h base \<and>
            handlers (snd (withUrlParams cd base w0)) h = HandlePopState cd base \<and>
            (popstate, h) \<in> set (window_listeners (snd (withUrlParams cd base w0))) \<and>
            cb \<notin> set (listeners (cells (call u w') (cell_of k))) \<and>
            (popstate, h) \<notin> set (window_listeners (call u w')) \<and>
            (\<forall>other. other \<noteq> cb \<and> other \<in> set (listeners (cells w' (cell_of k))) \<longrightarrow>
                     other \<in> set (listeners (cells (call u w') (cell_of k)))))) \<and>
   (window_defined w0 \<and> fst (withHashParams cd base w0) = Return k \<and> fst (subscribe k cb w) = Return u \<longrightarrow>
      (\<exists>h. k = HashParams h base \<and>
            handlers (snd (withHashParams cd base w0)) h = HandleHashChange cd base \<and>
            (hashchange, h) \<in> set (window_listeners (snd (withHashParams cd base w0))) \<and>
            cb \<notin> set (listeners (cells (call u w') (cell_of k))) \<and>
            (hashchange, h) \<notin> set (window_listeners (call u w')) \<and>
            (\<forall>other. other \<noteq> cb \<and> other \<in> set (listeners (cells w' (cell_of k))) \<longrightarrow>
                     other \<in> set (listeners (cells (call u w') (cell_of k))))))"
proof (intro conjI impI)
  assume a: "window_defined w0 \<and> fst (withUrlParams cd base w0) = Return k \<and> fst (subscribe k cb w) = Return u"
  then obtain h where h: "k = UrlParams h base"
    "handlers (snd (withUrlParams cd base w0)) h = HandlePopState cd base"
    "(popstate, h) \<in> set (window_listeners (snd (withUrlParams cd base w0)))"
    using withUrlParams_result [of w0 cd base k] by blast
  from a h(1) have "(popstate, h) \<notin> set (window_listeners (call u w'))"
    using url_unsubscribe [of h base cb w u w'] by simp
  with h unsubscribe_one [of k cb w u w'] a
  show "\<exists>h. k = UrlParams h base \<and>
            handlers (snd (withUrlParams cd base w0)) h = HandlePopState cd base \<and>
            (popstate, h) \<in> set (window_listeners (snd (withUrlParams cd base w0))) \<and>
            cb \<notin> set (listeners (cells (call u w') (cell_of k))) \<and>
            (popstate, h) \<notin> set (window_listeners (call u w')) \<and>
            (\<forall>other. other \<noteq> cb \<and> other \<in> set (listeners (cells w' (cell_of k))) \<longrightarrow>
                     other \<in> set (listeners (cells (call u w') (cell_of k))))"
    by blast
next
  assume a: "window_defined w0 \<and> fst (withHashParams cd base w0) = Return k \<and> fst (subscribe k cb w) = Return u"
  then obtain h where h: "k = HashParams h base"
    "handlers (snd (withHashParams cd base w0)) h = HandleHashChange cd base"
    "(hashchange, h) \<in> set (window_listeners (snd (withHashParams cd base w0)))"
    using withHashParams_result [of w0 cd base k] by blast
  from a h(1) have "(hashchange, h) \<notin> set (window_listeners (call u w'))"
    using hash_unsubscribe [of h base cb w u w'] by simp
  with h unsubscribe_one [of k cb w u w'] a
  show "\<exists>h. k = HashParams h base \<and>
            handlers (snd (withHashParams cd base w0)) h = HandleHashChange cd base \<and>
            (hashchange, h) \<in> set (window_listeners (snd (withHashParams cd base w0))) \<and>
            cb \<notin> set (listeners (cells (call u w') (cell_of k))) \<and>
            (hashchange, h) \<notin> set (window_listeners (call u w')) \<and>
            (\<forall>other. other \<noteq> cb \<and> other \<in> set (listeners (cells w' (cell_of k))) \<longrightarrow>
                     other \<in> set (listeners (cells (call u w') (cell_of k))))"
    by blast
qed

theorem unsubscribe_removes_external_listener_witness:
  "fst url_synced = Return (UrlParams 4 (Cell 0)) \<and>
   (popstate, 4) \<in> set (window_listeners (snd url_synced)) \<and>
   User 2 \<in> set (listeners (cells url_watched 0)) \<and>
   User 1 \<notin> set (listeners (cells (call (UrlUnsubscribe (Unsubscribe 0 (User 1)) 4) url_watched) 0)) \<and>
   (popstate, 4) \<notin> set (window_listeners (call (UrlUnsubscribe (Unsubscribe 0 (User 1)) 4) url_watched)) \<and>
   User 2 \<in> set (listeners (cells (call (UrlUnsubscribe (Unsubscribe 0 (User 1)) 4) url_watched) 0)) \<and>
   fst hash_synced = Return (HashParams 4 (Cell 0)) \<and>
   (hashchange, 4) \<in> set (window_listeners (snd hash_synced)) \<and>
   User 2 \<in> set (listeners (cells hash_watched 0)) \<and>
   User 1 \<notin> set (listeners (cells (call (HashUnsubscribe (Unsubscribe 0 (User 1)) 4) hash_watched) 0)) \<and>
   (hashchange, 4) \<notin> set (window_listeners (call (HashUnsubscribe (Unsubscribe 0 (User 1)) 4) hash_watched)) \<and>
   User 2 \<in> set (listeners (cells (call (HashUnsubscribe (Unsubscribe 0 (User 1)) 4) hash_watched) 0))"
proof -
  have wd: "window_defined (snd (state (Obj 100 [(''page'', Num 1)]) browser))"
    "window_defined (snd (state (Obj 100 [(''tab'', Str ''home'')]) browser))"
    by (simp_all add: state_window_defined browser_def)
  note U = unsubscribe_removes_external_listener
    [of "snd (state (Obj 100 [(''page'', Num 1)]) browser)" plain_codec "Cell 0" "UrlParams 4 (Cell 0)"
        "User 1" "snd url_synced" "UrlUnsubscribe (Unsubscribe 0 (User 1)) 4" url_watched,
     THEN conjunct1, folded url_synced_def]
  note H = unsubscribe_removes_external_listener
    [of "snd (state (Obj 100 [(''tab'', Str ''home'')]) browser)" plain_codec "Cell 0" "HashParams 4 (Cell 0)"
        "User 1" "snd hash_synced" "HashUnsubscribe (Unsubscribe 0 (User 1)) 4" hash_watched,
     THEN conjunct2, folded hash_synced_def]
  from wd(1) url_synced_simps(1) url_watched_simps(3)
  have "window_defined (snd (state (Obj 100 [(''page'', Num 1)]) browser)) \<and>
      fst url_synced = Return (UrlParams 4 (Cell 0)) \<and>
      fst (subscribe (UrlParams 4 (Cell 0)) (User 1) (snd url_synced)) = Return (UrlUnsubscribe (Unsubscribe 0 (User 1)) 4)"
    by blast
  with U obtain h where h: "UrlParams 4 (Cell 0) = UrlParams h (Cell 0)"
    "User 1 \<notin> set (listeners (cells (call (UrlUnsubscribe (Unsubscribe 0 (User 1)) 4) url_watched) (cell_of (UrlParams 4 (Cell 0)))))"
    "(popstate, h) \<notin> set (window_listeners (call (UrlUnsubscribe (Unsubscribe 0 (User 1)) 4) url_watched))"
    "\<forall>other. other \<noteq> User 1 \<and> other \<in> set (listeners (cells url_watched (cell_of (UrlParams 4 (Cell 0))))) \<longrightarrow>
        other \<in> set (listeners (cells (call (UrlUnsubscribe (Unsubscribe 0 (User 1)) 4) url_watched) (cell_of (UrlParams 4 (Cell 0)))))"
    by blast
  from h(1) have h4: "h = 4" by simp
  have u2: "User 2 \<noteq> User 1 \<and> User 2 \<in> set (listeners (cells url_watched (cell_of (UrlParams 4 (Cell 0)))))"
    by (simp add: url_watched_simps)
  with h(4) have "User 2 \<in> set (listeners (cells (call (UrlUnsubscribe (Unsubscribe 0 (User 1)) 4) url_watched) (cell_of (UrlParams 4 (Cell 0)))))"
    by blast
  with h(2,3) h4 have url: "User 1 \<notin> set (listeners (cells (call (UrlUnsubscribe (Unsubscribe 0 (User 1)) 4) url_watched) 0)) \<and>
      (popstate, 4) \<notin> set (window_listeners (call (UrlUnsubscribe (Unsubscribe 0 (User 1)) 4) url_watched)) \<and>
      User 2 \<in> set (listeners (cells (call (UrlUnsubscribe (Unsubscribe 0 (User 1)) 4) url_watched) 0))"
    by simp
  from wd(2) hash_synced_simps(1) hash_watched_simps(3)
  have "window_defined (snd (state (Obj 100 [(''tab'', Str ''home'')]) browser)) \<and>
      fst hash_synced = Return (HashParams 4 (Cell 0)) \<and>
      fst (subscribe (HashParams 4 (Cell 0)) (User 1) (snd hash_synced)) = Return (HashUnsubscribe (Unsubscribe 0 (User 1)) 4)"
    by blast
  with H obtain g where g: "HashParams 4 (Cell 0) = HashParams g (Cell 0)"
    "User 1 \<notin> set (listeners (cells (call (HashUnsubscribe (Unsubscribe 0 (User 1)) 4) hash_watched) (cell_of (HashParams 4 (Cell 0)))))"
    "(hashchange, g) \<notin> set (window_listeners (call (HashUnsubscribe (Unsubscribe 0 (User 1)) 4) hash_watched))"
    "\<forall>other. other \<noteq> User 1 \<and> other \<in> set (listeners (cells hash_watched (cell_of (HashParams 4 (Cell 0))))) \<longrightarrow>
        other \<in> set (listeners (cells (call (HashUnsubscribe (Unsubscribe 0 (User 1)) 4) hash_watched) (cell_of (HashParams 4 (Cell 0)))))"
    by blast
  from g(1) have g4: "g = 4" by simp
  have "User 2 \<noteq> User 1 \<and> User 2 \<in> set (listeners (cells hash_watched (cell_of (HashParams 4 (Cell 0)))))"
    by (simp add: hash_watched_simps)
  with g(4) have "User 2 \<in> set (listeners (cells (call (HashUnsubscribe (Unsubscribe 0 (User 1)) 4) hash_watched) (cell_of (HashParams 4 (Cell 0)))))"
    by blast
  with g(2,3) g4 have hash: "User 1 \<notin> set (listeners (cells (call (HashUnsubscribe (Unsubscribe 0 (User 1)) 4) hash_watched) 0)) \<and>
      (hashchange, 4) \<notin> set (window_listeners (call (HashUnsubscribe (Unsubscribe 0 (User 1)) 4) hash_watched)) \<and>
      User 2 \<in> set (listeners (cells (call (HashUnsubscribe (Unsubscribe 0 (User 1)) 4) hash_watched) 0))"
    by simp
  have "fst url_synced = Return (UrlParams 4 (Cell 0)) \<and>
      (popstate, 4) \<in> set (window_listeners (snd url_synced)) \<and>
      User 2 \<in> set (listeners (cells url_watched 0)) \<and>
      fst hash_synced = Return (HashParams 4 (Cell 0)) \<and>
      (hashchange, 4) \<in> set (window_listeners (snd hash_synced)) \<and>
      User 2 \<in> set (listeners (cells hash_watched 0))"
    by (simp add: url_synced_simps hash_synced_simps url_watched_simps hash_watched_simps)
  with url hash show ?thesis by blast
qed

text \<open>
  What the removal means for the subscribers that remain: a navigation reaches the
  state while the handler is registered, and no longer after one subscriber left.
\<close>

lemma navigation_before_and_after_unsubscribing:
  "get (Cell 0) (dispatch popstate (url_watched\<lparr>location_search := [(''page'', ''9'')]\<rparr>)) = Obj 6 [(''page'', Str ''9'')] \<and>
   dispatch popstate (call (UrlUnsubscribe (Unsubscribe 0 (User 1)) 4) url_watched\<lparr>location_search := [(''page'', ''9'')]\<rparr>) =
     call (UrlUnsubscribe (Unsubscribe 0 (User 1)) 4) url_watched\<lparr>location_search := [(''page'', ''9'')]\<rparr>"
  by (simp add: dispatch_def url_watched_simps removeEventListener_def)
     (simp add: url_watched_def url_synced_def withUrlParams_def sync_from_def new_object_def new_closure_def new_handler_def
      addEventListener_def state_def alloc_def browser_def invoke_def add_def plain_codec_def spread_props_def Let_def)


section \<open>Hydration from the address bar and from storage\<close>

lemma map_of_assign_all: "map_of (assign_all fs kvs) = map_of fs ++ map_of (rev kvs)"
proof (induction kvs arbitrary: fs)
  case Nil
  show ?case by simp
next
  case (Cons kv kvs)
  obtain k v where kv: "kv = (k, v)" by (cases kv)
  have "map_of (assign_all fs (kv # kvs)) = map_of (AList.update k v fs) ++ map_of (rev kvs)"
    using Cons.IH [of "AList.update k v fs"] kv by simp
  also have "\<dots> = (map_of fs ++ [k \<mapsto> v]) ++ map_of (rev kvs)"
    by (simp add: update_conv')
  also have "\<dots> = map_of fs ++ map_of (rev (kv # kvs))"
    by (simp add: kv)
  finally show ?case .
qed

lemma map_of_rev_distinct: "distinct (map fst xs) \<Longrightarrow> map_of (rev xs) = map_of xs"
  by (rule map_of_inject_set [THEN iffD2]) (simp_all add: rev_map [symmetric])

lemma map_of_spread_props:
  assumes "distinct (map fst (own_props a))" and "distinct (map fst (own_props b))"
  shows "map_of (spread_props a b) key =
     (case map_of (own_props b) key of Some v \<Rightarrow> Some v | None \<Rightarrow> map_of (own_props a) key)"
  using assms by (simp add: spread_props_def map_of_assign_all map_of_rev_distinct map_add_def)

lemma get_current:
  "(\<And>c. current (cells w' c) = current (cells w c)) \<Longrightarrow> get k w' = get k w"
  by (induction k) simp_all

lemma subscribe_get: "get k' (snd (subscribe k cb w)) = get k' w"
  by (rule get_current) (simp add: subscribe_cells)

lemma new_closure_simps [simp]:
  "fst (new_closure body w) = fresh w"
  "closures (snd (new_closure body w)) = (closures w)(fresh w := body)"
  "cells (snd (new_closure body w)) = cells w"
  "window_defined (snd (new_closure body w)) = window_defined w"
  by (simp_all add: new_closure_def alloc_def)

text \<open>After an enhancer ran, the values held are those its hydration left.\<close>

lemma withUrlParams_get:
  "window_defined w \<Longrightarrow>
   get k (snd (withUrlParams cd base w)) = get k (snd (sync_from cd (location_search w) base w))"
proof -
  assume wd: "window_defined w"
  obtain r1 w1 where s1: "sync_from cd (location_search w) base w = (r1, w1)"
    by (cases "sync_from cd (location_search w) base w")
  obtain n w2 where s2: "new_closure (UrlWriter cd) w1 = (n, w2)"
    by (cases "new_closure (UrlWriter cd) w1")
  obtain r3 w3 where s3: "subscribe base (Internal n) w2 = (r3, w3)"
    by (cases "subscribe base (Internal n) w2")
  obtain h w4 where s4: "new_handler (HandlePopState cd base) w3 = (h, w4)"
    by (cases "new_handler (HandlePopState cd base) w3")
  have g2: "get k w2 = get k w1"
    using new_closure_simps(3) [of "UrlWriter cd" w1] s2 by (intro get_frame) simp
  have g3: "get k w3 = get k w2"
    using subscribe_get [of k base "Internal n" w2] s3 by simp
  have g4: "get k (addEventListener popstate h w4) = get k w3"
    using new_handler_simps(3) [of "HandlePopState cd base" w3] s4 by (intro get_frame) simp
  show ?thesis
    using wd s1 s2 s3 s4 g2 g3 g4
    by (cases r1; cases r3) (simp_all add: withUrlParams_def)
qed

lemma withHashParams_get:
  "window_defined w \<Longrightarrow>
   get k (snd (withHashParams cd base w)) = get k (snd (sync_from cd (location_hash w) base w))"
proof -
  assume wd: "window_defined w"
  obtain r1 w1 where s1: "sync_from cd (location_hash w) base w = (r1, w1)"
    by (cases "sync_from cd (location_hash w) base w")
  obtain n w2 where s2: "new_closure (HashWriter cd) w1 = (n, w2)"
    by (cases "new_closure (HashWriter cd) w1")
  obtain r3 w3 where s3: "subscribe base (Internal n) w2 = (r3, w3)"
    by (cases "subscribe base (Internal n) w2")
  obtain h w4 where s4: "new_handler (HandleHashChange cd base) w3 = (h, w4)"
    by (cases "new_handler (HandleHashChange cd base) w3")
  have g2: "get k w2 = get k w1"
    using new_closure_simps(3) [of "HashWriter cd" w1] s2 by (intro get_frame) simp
  have g3: "get k w3 = get k w2"
    using subscribe_get [of k base "Internal n" w2] s3 by simp
  have g4: "get k (addEventListener hashchange h w4) = get k w3"
    using new_handler_simps(3) [of "HandleHashChange cd base" w3] s4 by (intro get_frame) simp
  show ?thesis
    using wd s1 s2 s3 s4 g2 g3 g4
    by (cases r1; cases r3) (simp_all add: withHashParams_def)
qed

lemma withStorage_get:
  "window_defined w \<Longrightarrow>
   get k (snd (withStorage key cd base w)) = get k (snd (storage_read key cd base w))"
proof -
  assume wd: "window_defined w"
  obtain r1 w1 where s1: "try_catch (storage_read key cd base w) = (r1, w1)"
    by (cases "try_catch (storage_read key cd base w)")
  then have w1: "w1 = snd (storage_read key cd base w)"
    using snd_try_catch [of "storage_read key cd base w"] by simp
  obtain n w2 where s2: "new_closure (StorageWriter key cd) w1 = (n, w2)"
    by (cases "new_closure (StorageWriter key cd) w1")
  obtain r3 w3 where s3: "subscribe base (Internal n) w2 = (r3, w3)"
    by (cases "subscribe base (Internal n) w2")
  have g2: "get k w2 = get k w1"
    using new_closure_simps(3) [of "StorageWriter key cd" w1] s2 by (intro get_frame) simp
  have g3: "get k w3 = get k w2"
    using subscribe_get [of k base "Internal n" w2] s3 by simp
  show ?thesis
    using wd s1 s2 s3 g2 g3 w1
    by (cases r3) (simp_all add: withStorage_def)
qed

lemma sync_from_decoded:
  assumes "decode cd (Obj (fresh w) (assign_all [] (map (\<lambda>(key, value). (key, Str value)) params))) = Return decoded"
  shows "sync_from cd params base w =
     set' base (Value (Obj (Suc (fresh w)) (spread_props (get base w) decoded))) (w\<lparr>fresh := Suc (Suc (fresh w))\<rparr>)"
proof -
  have "get base (w\<lparr>fresh := Suc (fresh w)\<rparr>) = get base w"
    by (rule get_frame) simp
  with assms show ?thesis
    by (simp add: sync_from_def new_object_def alloc_def)
qed

lemma storage_read_decoded:
  assumes "localStorage w key = Some stored" and "stored \<noteq> []"
    and "JSON_parse w stored = Return parsed" and "decode cd parsed = Return decoded"
  shows "storage_read key cd base w =
     set' base (Value (Obj (fresh w) (spread_props (get base w) decoded))) (w\<lparr>fresh := Suc (fresh w)\<rparr>)"
  using assms by (simp add: storage_read_def new_object_def alloc_def)

lemma storage_read_nothing:
  assumes "localStorage w key = None \<or> localStorage w key = Some []"
  shows "storage_read key cd base w = (Return (), w)"
  using assms by (auto simp add: storage_read_def)

lemma visited_simps:
  "window_defined visited"
  "fresh visited = 1"
  "cells visited 0 = \<lparr>current = Obj 100 [(''query'', Str ''''), (''page'', Num 1)], listeners = []\<rparr>"
  "location_search visited = [(''page'', ''2'')]"
  "location_hash visited = [(''page'', ''3'')]"
  "localStorage visited ''prefs'' = Some page4"
  "localStorage visited ''theme'' = None"
  "JSON_parse visited page4 = Return (Obj 0 [(''page'', Num 4)])"
  by (simp_all add: visited_def state_def alloc_def browser_def)

text \<open>
  C8. Hydration, for objects whose keys are distinct. The merged object has, for every
  field, the decoded value where the decoded result has the field and the current value
  where it does not. In a browser, when the codec decodes the query (the hash) into a
  partial value, the hydration of \<^verbatim>\<open>withUrlParams\<close> (\<^verbatim>\<open>withHashParams\<close>) is one call of the
  inner container's \<^verbatim>\<open>set\<close> with that merged object, and every container reads after the
  composition what that call left. So does the hydration of \<^verbatim>\<open>withStorage\<close> when a
  non-empty record is stored under the key, parses and decodes; with no record, or an
  empty one, every value is what it was.
\<close>

theorem hydration_shallow_merge:
  assumes "distinct (map fst (own_props (get base w)))" and "distinct (map fst (own_props decoded))"
  shows
  "(\<forall>field. map_of (spread_props (get base w) decoded) field =
       (case map_of (own_props decoded) field of
          Some v \<Rightarrow> Some v
        | None \<Rightarrow> map_of (own_props (get base w)) field)) \<and>
   (window_defined w \<and>
    decode cd (Obj (fresh w) (assign_all [] (map (\<lambda>(key, value). (key, Str value)) (location_search w)))) = Return decoded \<longrightarrow>
      sync_from cd (location_search w) base w =
        set' base (Value (Obj (Suc (fresh w)) (spread_props (get base w) decoded))) (w\<lparr>fresh := Suc (Suc (fresh w))\<rparr>) \<and>
      (\<forall>k. get k (snd (withUrlParams cd base w)) =
        get k (snd (set' base (Value (Obj (Suc (fresh w)) (spread_props (get base w) decoded))) (w\<lparr>fresh := Suc (Suc (fresh w))\<rparr>))))) \<and>
   (window_defined w \<and>
    decode cd (Obj (fresh w) (assign_all [] (map (\<lambda>(key, value). (key, Str value)) (location_hash w)))) = Return decoded \<longrightarrow>
      sync_from cd (location_hash w) base w =
        set' base (Value (Obj (Suc (fresh w)) (spread_props (get base w) decoded))) (w\<lparr>fresh := Suc (Suc (fresh w))\<rparr>) \<and>
      (\<forall>k. get k (snd (withHashParams cd base w)) =
        get k (snd (set' base (Value (Obj (Suc (fresh w)) (spread_props (get base w) decoded))) (w\<lparr>fresh := Suc (Suc (fresh w))\<rparr>))))) \<and>
   (window_defined w \<and> localStorage w key = Some stored \<and> stored \<noteq> [] \<and>
    JSON_parse w stored = Return parsed \<and> decode cd parsed = Return decoded \<longrightarrow>
      storage_read key cd base w =
        set' base (Value (Obj (fresh w) (spread_props (get base w) decoded))) (w\<lparr>fresh := Suc (fresh w)\<rparr>) \<and>
      (\<forall>k. get k (snd (withStorage key cd base w)) =
        get k (snd (set' base (Value (Obj (fresh w) (spread_props (get base w) decoded))) (w\<lparr>fresh := Suc (fresh w)\<rparr>))))) \<and>
   (window_defined w \<and> (localStorage w key = None \<or> localStorage w key = Some []) \<longrightarrow>
      (\<forall>k. get k (snd (withStorage key cd base w)) = get k w))"
proof (intro conjI impI allI)
  fix field
  show "map_of (spread_props (get base w) decoded) field =
       (case map_of (own_props decoded) field of
          Some v \<Rightarrow> Some v
        | None \<Rightarrow> map_of (own_props (get base w)) field)"
    using assms by (rule map_of_spread_props)
next
  assume a: "window_defined w \<and>
    decode cd (Obj (fresh w) (assign_all [] (map (\<lambda>(key, value). (key, Str value)) (location_search w)))) = Return decoded"
  then show s: "sync_from cd (location_search w) base w =
        set' base (Value (Obj (Suc (fresh w)) (spread_props (get base w) decoded))) (w\<lparr>fresh := Suc (Suc (fresh w))\<rparr>)"
    by (simp add: sync_from_decoded)
  fix k
  show "get k (snd (withUrlParams cd base w)) =
        get k (snd (set' base (Value (Obj (Suc (fresh w)) (spread_props (get base w) decoded))) (w\<lparr>fresh := Suc (Suc (fresh w))\<rparr>)))"
    using a s by (simp add: withUrlParams_get)
next
  assume a: "window_defined w \<and>
    decode cd (Obj (fresh w) (assign_all [] (map (\<lambda>(key, value). (key, Str value)) (location_hash w)))) = Return decoded"
  then show s: "sync_from cd (location_hash w) base w =
        set' base (Value (Obj (Suc (fresh w)) (spread_props (get base w) decoded))) (w\<lparr>fresh := Suc (Suc (fresh w))\<rparr>)"
    by (simp add: sync_from_decoded)
  fix k
  show "get k (snd (withHashParams cd base w)) =
        get k (snd (set' base (Value (Obj (Suc (fresh w)) (spread_props (get base w) decoded))) (w\<lparr>fresh := Suc (Suc (fresh w))\<rparr>)))"
    using a s by (simp add: withHashParams_get)
next
  assume a: "window_defined w \<and> localStorage w key = Some stored \<and> stored \<noteq> [] \<and>
    JSON_parse w stored = Return parsed \<and> decode cd parsed = Return decoded"
  then show s: "storage_read key cd base w =
        set' base (Value (Obj (fresh w) (spread_props (get base w) decoded))) (w\<lparr>fresh := Suc (fresh w)\<rparr>)"
    by (simp add: storage_read_decoded)
  fix k
  show "get k (snd (withStorage key cd base w)) =
        get k (snd (set' base (Value (Obj (fresh w) (spread_props (get base w) decoded))) (w\<lparr>fresh := Suc (fresh w)\<rparr>)))"
    using a s by (simp add: withStorage_get)
next
  fix k
  assume a: "window_defined w \<and> (localStorage w key = None \<or> localStorage w key = Some [])"
  then have "storage_read key cd base w = (Return (), w)"
    by (simp add: storage_read_nothing)
  with a show "get k (snd (withStorage key cd base w)) = get k w"
    by (simp add: withStorage_get)
qed

theorem hydration_shallow_merge_witness:
  "map_of (spread_props (get (Cell 0) visited) (Obj 1 [(''page'', Str ''2'')])) ''page'' = Some (Str ''2'') \<and>
   map_of (spread_props (get (Cell 0) visited) (Obj 1 [(''page'', Str ''2'')])) ''query'' = Some (Str '''') \<and>
   get (Cell 0) (snd (withUrlParams plain_codec (Cell 0) visited)) = Obj 2 [(''query'', Str ''''), (''page'', Str ''2'')] \<and>
   get (Cell 0) (snd (withHashParams plain_codec (Cell 0) visited)) = Obj 2 [(''query'', Str ''''), (''page'', Str ''3'')] \<and>
   get (Cell 0) (snd (withStorage ''prefs'' plain_codec (Cell 0) visited)) = Obj 1 [(''query'', Str ''''), (''page'', Num 4)] \<and>
   get (Cell 0) (snd (withStorage ''theme'' plain_codec (Cell 0) visited)) = Obj 100 [(''query'', Str ''''), (''page'', Num 1)]"
proof -
  have d: "distinct (map fst (own_props (get (Cell 0) visited)))"
    "distinct (map fst (own_props (Obj 1 [(''page'', Str ''2'')])))"
    "distinct (map fst (own_props (Obj 1 [(''page'', Str ''3'')])))"
    "distinct (map fst (own_props (Obj 0 [(''page'', Num 4)])))"
    by (simp_all add: visited_simps)
  note U = hydration_shallow_merge [OF d(1) d(2), of plain_codec "''prefs''" page4 "Obj 0 [(''page'', Num 4)]"]
  note H = hydration_shallow_merge [OF d(1) d(3), of plain_codec "''prefs''" page4 "Obj 0 [(''page'', Num 4)]"]
  note S = hydration_shallow_merge [OF d(1) d(4), of plain_codec "''prefs''" page4 "Obj 0 [(''page'', Num 4)]"]
  note N = hydration_shallow_merge [OF d(1) d(4), of plain_codec "''theme''" page4 "Obj 0 [(''page'', Num 4)]"]
  from U have u1: "map_of (spread_props (get (Cell 0) visited) (Obj 1 [(''page'', Str ''2'')])) ''page'' = Some (Str ''2'')"
    and u2: "map_of (spread_props (get (Cell 0) visited) (Obj 1 [(''page'', Str ''2'')])) ''query'' = Some (Str '''')"
    by (simp_all add: visited_simps)
  have "window_defined visited \<and>
      decode plain_codec (Obj (fresh visited) (assign_all [] (map (\<lambda>(key, value). (key, Str value)) (location_search visited)))) =
        Return (Obj 1 [(''page'', Str ''2'')])"
    by (simp add: visited_simps plain_codec_def)
  with U have "get (Cell 0) (snd (withUrlParams plain_codec (Cell 0) visited)) =
      get (Cell 0) (snd (set' (Cell 0) (Value (Obj (Suc (fresh visited)) (spread_props (get (Cell 0) visited) (Obj 1 [(''page'', Str ''2'')]))))
        (visited\<lparr>fresh := Suc (Suc (fresh visited))\<rparr>)))"
    by blast
  then have u3: "get (Cell 0) (snd (withUrlParams plain_codec (Cell 0) visited)) = Obj 2 [(''query'', Str ''''), (''page'', Str ''2'')]"
    by (simp add: visited_simps spread_props_def)
  have "window_defined visited \<and>
      decode plain_codec (Obj (fresh visited) (assign_all [] (map (\<lambda>(key, value). (key, Str value)) (location_hash visited)))) =
        Return (Obj 1 [(''page'', Str ''3'')])"
    by (simp add: visited_simps plain_codec_def)
  with H have "get (Cell 0) (snd (withHashParams plain_codec (Cell 0) visited)) =
      get (Cell 0) (snd (set' (Cell 0) (Value (Obj (Suc (fresh visited)) (spread_props (get (Cell 0) visited) (Obj 1 [(''page'', Str ''3'')]))))
        (visited\<lparr>fresh := Suc (Suc (fresh visited))\<rparr>)))"
    by blast
  then have h3: "get (Cell 0) (snd (withHashParams plain_codec (Cell 0) visited)) = Obj 2 [(''query'', Str ''''), (''page'', Str ''3'')]"
    by (simp add: visited_simps spread_props_def)
  have "window_defined visited \<and> localStorage visited ''prefs'' = Some page4 \<and> page4 \<noteq> [] \<and>
      JSON_parse visited page4 = Return (Obj 0 [(''page'', Num 4)]) \<and>
      decode plain_codec (Obj 0 [(''page'', Num 4)]) = Return (Obj 0 [(''page'', Num 4)])"
    by (simp add: visited_simps plain_codec_def) (simp add: page4_def)
  with S have "get (Cell 0) (snd (withStorage ''prefs'' plain_codec (Cell 0) visited)) =
      get (Cell 0) (snd (set' (Cell 0) (Value (Obj (fresh visited) (spread_props (get (Cell 0) visited) (Obj 0 [(''page'', Num 4)]))))
        (visited\<lparr>fresh := Suc (fresh visited)\<rparr>)))"
    by blast
  then have s3: "get (Cell 0) (snd (withStorage ''prefs'' plain_codec (Cell 0) visited)) = Obj 1 [(''query'', Str ''''), (''page'', Num 4)]"
    by (simp add: visited_simps spread_props_def)
  have "window_defined visited \<and> (localStorage visited ''theme'' = None \<or> localStorage visited ''theme'' = Some [])"
    by (simp add: visited_simps)
  with N have "get (Cell 0) (snd (withStorage ''theme'' plain_codec (Cell 0) visited)) = get (Cell 0) visited"
    by blast
  then have n3: "get (Cell 0) (snd (withStorage ''theme'' plain_codec (Cell 0) visited)) = Obj 100 [(''query'', Str ''''), (''page'', Num 1)]"
    by (simp add: visited_simps)
  from u1 u2 u3 h3 s3 n3 show ?thesis by blast
qed

section \<open>Storage that fails\<close>

lemma withStorage_returns: "fst (withStorage key cd base w) = Return base"
proof (cases "window_defined w")
  case False
  then show ?thesis by (simp add: withStorage_def)
next
  case True
  obtain r1 w1 where s1: "try_catch (storage_read key cd base w) = (r1, w1)"
    by (cases "try_catch (storage_read key cd base w)")
  obtain n w2 where s2: "new_closure (StorageWriter key cd) w1 = (n, w2)"
    by (cases "new_closure (StorageWriter key cd) w1")
  have "closures w2 n = StorageWriter key cd"
    using new_closure_simps(1,2) [of "StorageWriter key cd" w1] s2 by simp
  then have "returns w2 (Internal n) (get base w2)" by simp
  then obtain u where "fst (subscribe base (Internal n) w2) = Return u"
    using subscribe_returns by blast
  then show ?thesis
    using True s1 s2 by (cases "subscribe base (Internal n) w2") (simp add: withStorage_def)
qed

lemma storage_write_failed:
  "fst (storage_write key cd v w) = Throw x \<Longrightarrow> snd (storage_write key cd v w) = w"
  by (auto simp add: storage_write_def setItem_def split: outcome.splits if_splits)

lemma storage_listener:
  assumes "closures w n = StorageWriter key cd"
  shows "fst (invoke (Internal n) v w) = Return ()"
    and "fst (storage_write key cd v (w\<lparr>trace := trace w @ [(Internal n, v)]\<rparr>)) = Throw x \<Longrightarrow>
         snd (invoke (Internal n) v w) = w\<lparr>trace := trace w @ [(Internal n, v)]\<rparr>"
  using assms by (simp_all add: invoke_def storage_write_failed)

lemma storage_read_malformed:
  "localStorage w key = Some stored \<Longrightarrow> JSON_parse w stored = Throw x \<Longrightarrow>
   try_catch (storage_read key cd base w) = (Return (), w)"
  by (simp add: storage_read_def)

lemma set_listeners:
  "listeners (cells (snd (set' k vu w)) c) = listeners (cells w c)"
proof (induction k arbitrary: vu w)
  case (Cell c')
  show ?case by (simp add: Let_def)
next
  case (UrlParams h k)
  then show ?case by simp
next
  case (HashParams h k)
  then show ?case by simp
next
  case (Validation schema k)
  then show ?case by (cases "schema (resolve vu (get k w))") simp_all
next
  case (Debounce d ms k)
  obtain t w2 where st: "setTimeout (k, vu) ms (clearTimeout (timeout w d) w) = (t, w2)"
    by (cases "setTimeout (k, vu) ms (clearTimeout (timeout w d) w)")
  then have "cells w2 = cells w"
    using setTimeout_frame(1) [of "(k, vu)" ms "clearTimeout (timeout w d) w"] by simp
  with st show ?case by (simp add: Let_def)
qed

lemma set_closures:
  "closures (snd (set' k vu w)) = closures w"
proof (induction k arbitrary: vu w)
  case (Cell c')
  show ?case by (simp add: Let_def)
next
  case (UrlParams h k)
  then show ?case by simp
next
  case (HashParams h k)
  then show ?case by simp
next
  case (Validation schema k)
  then show ?case by (cases "schema (resolve vu (get k w))") simp_all
next
  case (Debounce d ms k)
  obtain t w2 where st: "setTimeout (k, vu) ms (clearTimeout (timeout w d) w) = (t, w2)"
    by (cases "setTimeout (k, vu) ms (clearTimeout (timeout w d) w)")
  then have "closures w2 = closures w"
    using setTimeout_frame(3) [of "(k, vu)" ms "clearTimeout (timeout w d) w"] by simp
  with st show ?case by (simp add: Let_def)
qed

lemma storage_read_keeps:
  "listeners (cells (snd (storage_read key cd base w)) c) = listeners (cells w c)"
  "closures (snd (storage_read key cd base w)) = closures w"
  by (simp_all add: storage_read_def new_object_def alloc_def set_listeners set_closures
      split: option.splits outcome.splits)

lemma subscribe_closures: "closures (snd (subscribe k cb w)) = closures w"
proof (induction k)
  case (Cell c)
  let ?w1 = "w\<lparr>cells := (cells w)(c := (cells w c)\<lparr>listeners := add cb (listeners (cells w c))\<rparr>)\<rparr>"
  obtain r w2 where inv: "invoke cb (current (cells ?w1 c)) ?w1 = (r, w2)"
    by (cases "invoke cb (current (cells ?w1 c)) ?w1")
  then have "closures w2 = closures w"
    using invoke_frame(2) [of cb "current (cells ?w1 c)" ?w1] by simp
  with inv show ?case by (cases r) (simp_all add: Let_def)
next
  case (UrlParams h k)
  then show ?case by (cases "subscribe k cb w") (auto split: outcome.splits)
next
  case (HashParams h k)
  then show ?case by (cases "subscribe k cb w") (auto split: outcome.splits)
next
  case (Validation s k)
  then show ?case by simp
next
  case (Debounce d ms k)
  then show ?case by simp
qed

text \<open>What \<^verbatim>\<open>withStorage\<close> leaves in a browser: one more listener, its writer.\<close>

lemma withStorage_listener:
  assumes "window_defined w"
  shows "\<exists>n. listeners (cells (snd (withStorage key cd base w)) (cell_of base)) =
               add (Internal n) (listeners (cells w (cell_of base))) \<and>
             closures (snd (withStorage key cd base w)) n = StorageWriter key cd"
proof -
  obtain r1 w1 where s1: "try_catch (storage_read key cd base w) = (r1, w1)"
    by (cases "try_catch (storage_read key cd base w)")
  then have w1: "w1 = snd (storage_read key cd base w)"
    using snd_try_catch [of "storage_read key cd base w"] by simp
  obtain n w2 where s2: "new_closure (StorageWriter key cd) w1 = (n, w2)"
    by (cases "new_closure (StorageWriter key cd) w1")
  obtain r3 w3 where s3: "subscribe base (Internal n) w2 = (r3, w3)"
    by (cases "subscribe base (Internal n) w2")
  have c2: "closures w2 n = StorageWriter key cd" "cells w2 = cells w1"
    using new_closure_simps(1,2,3) [of "StorageWriter key cd" w1] s2 by simp_all
  have l1: "listeners (cells w1 (cell_of base)) = listeners (cells w (cell_of base))"
    by (simp add: w1 storage_read_keeps)
  have "cells w3 = (cells w2)(cell_of base := (cells w2 (cell_of base))\<lparr>listeners := add (Internal n) (listeners (cells w2 (cell_of base)))\<rparr>)"
    using subscribe_cells [of base "Internal n" w2] s3 by simp
  then have l3: "listeners (cells w3 (cell_of base)) = add (Internal n) (listeners (cells w (cell_of base)))"
    using c2 l1 by simp
  have c3: "closures w3 n = StorageWriter key cd"
    using subscribe_closures [of base "Internal n" w2] s3 c2 by simp
  have "snd (withStorage key cd base w) = w3"
    using assms s1 s2 s3 by (cases r3) (simp_all add: withStorage_def)
  with l3 c3 show ?thesis by blast
qed

lemma state_simps:
  "fst (state initial w) = Cell (fresh w)"
  "cells (snd (state initial w)) (fresh w) = \<lparr>current = initial, listeners = []\<rparr>"
  "window_defined (snd (state initial w)) = window_defined w"
  by (simp_all add: state_def alloc_def)

lemma full_simps:
  "window_defined full"
  "fresh full = 0"
  "localStorage full ''prefs'' = Some ''{oops''"
  "JSON_parse full ''{oops'' = Throw (HostError ''SyntaxError'')"
  by (simp_all add: full_def browser_def)

lemma persisted_simps:
  "closures persisted 1 = StorageWriter ''prefs'' plain_codec"
  "cells persisted 0 = \<lparr>current = Num 0, listeners = [Internal 1]\<rparr>"
  "localStorage persisted ''prefs'' = Some ''{oops''"
  "quota_exceeded persisted = (\<lambda>key s. True)"
  "JSON_stringify persisted = (\<lambda>v. Return (js_String v))"
  by (simp_all add: persisted_def withStorage_def storage_read_def new_closure_def alloc_def state_def
      full_def browser_def invoke_def add_def storage_write_def setItem_def plain_codec_def Let_def)

text \<open>
  C9. \<^verbatim>\<open>withStorage\<close> returns its base, whatever the stored record, the codec and the inner
  container do. A record that \<^verbatim>\<open>JSON.parse\<close> rejects leaves the world as it was. The
  listener that persists a change always returns and never touches a cell; when the
  write fails (the codec or \<^verbatim>\<open>JSON.stringify\<close> throws, the quota is exceeded) nothing but
  the call itself has happened. And on \<^verbatim>\<open>compose(state(initial), withStorage(key, codec))\<close>
  in a browser, every \<^verbatim>\<open>set\<close> returns and leaves the value that the same call leaves
  without storage: the candidate, or the current value when they are identical.
\<close>

theorem storage_failures_swallowed:
  "fst (withStorage key cd base w) = Return base \<and>
   (localStorage w key = Some stored \<and> JSON_parse w stored = Throw x \<longrightarrow>
      try_catch (storage_read key cd base w) = (Return (), w)) \<and>
   (closures w n = StorageWriter key cd \<longrightarrow>
      fst (invoke (Internal n) v w) = Return () \<and>
      cells (snd (invoke (Internal n) v w)) = cells w \<and>
      (fst (storage_write key cd v (w\<lparr>trace := trace w @ [(Internal n, v)]\<rparr>)) = Throw x \<longrightarrow>
         snd (invoke (Internal n) v w) = w\<lparr>trace := trace w @ [(Internal n, v)]\<rparr>)) \<and>
   (window_defined w \<longrightarrow>
      fst (set' (fst (state initial w)) valueOrUpdater
            (snd (withStorage key cd (fst (state initial w)) (snd (state initial w))))) = Return () \<and>
      get (fst (state initial w))
        (snd (set' (fst (state initial w)) valueOrUpdater
               (snd (withStorage key cd (fst (state initial w)) (snd (state initial w)))))) =
        (let cur = get (fst (state initial w)) (snd (withStorage key cd (fst (state initial w)) (snd (state initial w))));
             next = resolve valueOrUpdater cur
         in if strict_eq next cur then cur else next))"
proof (intro conjI impI)
  show "fst (withStorage key cd base w) = Return base"
    by (rule withStorage_returns)
next
  assume "localStorage w key = Some stored \<and> JSON_parse w stored = Throw x"
  then show "try_catch (storage_read key cd base w) = (Return (), w)"
    by (simp add: storage_read_malformed)
next
  assume "closures w n = StorageWriter key cd"
  then show "fst (invoke (Internal n) v w) = Return ()"
    by (rule storage_listener(1))
next
  show "cells (snd (invoke (Internal n) v w)) = cells w"
    by simp
next
  assume "closures w n = StorageWriter key cd"
    and "fst (storage_write key cd v (w\<lparr>trace := trace w @ [(Internal n, v)]\<rparr>)) = Throw x"
  then show "snd (invoke (Internal n) v w) = w\<lparr>trace := trace w @ [(Internal n, v)]\<rparr>"
    by (rule storage_listener(2))
next
  assume wd: "window_defined w"
  define c where "c = fresh w"
  define w1 where "w1 = snd (state initial w)"
  define w2 where "w2 = snd (withStorage key cd (Cell c) w1)"
  have k: "fst (state initial w) = Cell c" by (simp add: state_simps c_def)
  have "window_defined w1" "listeners (cells w1 c) = []"
    using wd by (simp_all add: w1_def c_def state_simps)
  with withStorage_listener [of w1 key cd "Cell c"] obtain m where
    m: "listeners (cells w2 c) = [Internal m]" "closures w2 m = StorageWriter key cd"
    by (auto simp add: w2_def add_def)
  define cur where "cur = current (cells w2 c)"
  define nxt where "nxt = resolve valueOrUpdater cur"
  define w3 where "w3 = w2\<lparr>cells := (cells w2)(c := (cells w2 c)\<lparr>current := nxt\<rparr>)\<rparr>"
  have res: "fst (set' (Cell c) valueOrUpdater w2) = Return () \<and>
      current (cells (snd (set' (Cell c) valueOrUpdater w2)) c) = (if strict_eq nxt cur then cur else nxt)"
  proof (cases "strict_eq nxt cur")
    case True
    then show ?thesis by (simp add: nxt_def cur_def)
  next
    case False
    then have eq: "set' (Cell c) valueOrUpdater w2 = forEach c (listeners (cells w2 c)) w3"
      by (simp add: nxt_def cur_def w3_def Let_def)
    have "\<forall>cb \<in> set (listeners (cells w2 c)). returns w3 cb (current (cells w3 c))"
      using m by (simp add: w3_def)
    then have "fst (forEach c (listeners (cells w2 c)) w3) = Return ()"
      by (rule forEach_returns)
    moreover have "current (cells (snd (forEach c (listeners (cells w2 c)) w3)) c) = nxt"
      by (simp add: w3_def)
    ultimately show ?thesis using eq False by simp
  qed
  show "fst (set' (fst (state initial w)) valueOrUpdater
            (snd (withStorage key cd (fst (state initial w)) (snd (state initial w))))) = Return ()"
    using res by (simp add: k w2_def w1_def)
  show "get (fst (state initial w))
        (snd (set' (fst (state initial w)) valueOrUpdater
               (snd (withStorage key cd (fst (state initial w)) (snd (state initial w)))))) =
        (let cur = get (fst (state initial w)) (snd (withStorage key cd (fst (state initial w)) (snd (state initial w))));
             next = resolve valueOrUpdater cur
         in if strict_eq next cur then cur else next)"
    using res by (simp add: k w2_def w1_def nxt_def cur_def Let_def)
qed

theorem storage_failures_swallowed_witness:
  "fst (withStorage ''prefs'' plain_codec (Cell 0) full) = Return (Cell 0) \<and>
   try_catch (storage_read ''prefs'' plain_codec (Cell 0) full) = (Return (), full) \<and>
   fst (invoke (Internal 1) (Num 5) persisted) = Return () \<and>
   snd (invoke (Internal 1) (Num 5) persisted) = persisted\<lparr>trace := trace persisted @ [(Internal 1, Num 5)]\<rparr> \<and>
   fst (set' (Cell 0) (Value (Num 5)) persisted) = Return () \<and>
   get (Cell 0) (snd (set' (Cell 0) (Value (Num 5)) persisted)) = Num 5"
proof -
  note F = storage_failures_swallowed
    [of "''prefs''" plain_codec "Cell 0" full "''{oops''" "HostError ''SyntaxError''" 0 Undefined "Num 0" "Value (Num 5)"]
  note P = storage_failures_swallowed
    [of "''prefs''" plain_codec "Cell 0" persisted "''{oops''" "HostError ''QuotaExceededError''" 1 "Num 5" "Num 0" "Value (Num 5)"]
  from F have a: "fst (withStorage ''prefs'' plain_codec (Cell 0) full) = Return (Cell 0)"
    by blast
  have "localStorage full ''prefs'' = Some ''{oops'' \<and> JSON_parse full ''{oops'' = Throw (HostError ''SyntaxError'')"
    by (simp add: full_simps)
  with F have b: "try_catch (storage_read ''prefs'' plain_codec (Cell 0) full) = (Return (), full)"
    by blast
  have fails: "fst (storage_write ''prefs'' plain_codec (Num 5) (persisted\<lparr>trace := trace persisted @ [(Internal 1, Num 5)]\<rparr>)) =
      Throw (HostError ''QuotaExceededError'')"
    by (simp add: storage_write_def setItem_def plain_codec_def persisted_simps)
  from P persisted_simps(1) fails
  have c: "fst (invoke (Internal 1) (Num 5) persisted) = Return () \<and>
      snd (invoke (Internal 1) (Num 5) persisted) = persisted\<lparr>trace := trace persisted @ [(Internal 1, Num 5)]\<rparr>"
    by blast
  have st: "fst (state (Num 0) full) = Cell 0"
    by (simp add: state_simps full_simps)
  from F full_simps(1) have "fst (set' (fst (state (Num 0) full)) (Value (Num 5))
            (snd (withStorage ''prefs'' plain_codec (fst (state (Num 0) full)) (snd (state (Num 0) full))))) = Return () \<and>
      get (fst (state (Num 0) full))
        (snd (set' (fst (state (Num 0) full)) (Value (Num 5))
               (snd (withStorage ''prefs'' plain_codec (fst (state (Num 0) full)) (snd (state (Num 0) full)))))) =
        (let cur = get (fst (state (Num 0) full)) (snd (withStorage ''prefs'' plain_codec (fst (state (Num 0) full)) (snd (state (Num 0) full))));
             next = resolve (Value (Num 5)) cur
         in if strict_eq next cur then cur else next)"
    by blast
  then have d: "fst (set' (Cell 0) (Value (Num 5)) persisted) = Return () \<and>
      get (Cell 0) (snd (set' (Cell 0) (Value (Num 5)) persisted)) = Num 5"
    unfolding st persisted_def [symmetric] by (simp add: persisted_simps)
  from a b c d show ?thesis by blast
qed

section \<open>Debounced writes\<close>


lemma run_timers_none_due:
  "filter (\<lambda>tm. fst (snd tm) \<le> until) (timers w) = [] \<Longrightarrow>
   run_timers fuel until w = Some (w\<lparr>now := max (now w) until\<rparr>)"
  by simp

















end
